theory Spec2Isabelle
  imports Main "HOL-Library.Sublist"
begin

section \<open>Strings\<close>

text \<open>
  A JavaScript string is modelled as a \<^typ>\<open>string\<close>: a list of code units, each below 256.
  The helpers below are the \<^verbatim>\<open>String.prototype\<close> methods the extension calls.
\<close>

abbreviation DQ :: char where "DQ \<equiv> CHR 0x22"
abbreviation SQ :: char where "SQ \<equiv> CHR 0x27"

definition code :: "char \<Rightarrow> nat" where
  "code c = of_char c"

definition is_digit :: "char \<Rightarrow> bool" where
  "is_digit c = (48 \<le> code c \<and> code c \<le> 57)"

text \<open>White space and line terminators, as \<^verbatim>\<open>\s\<close> and \<^verbatim>\<open>trim\<close> see them.\<close>

definition is_space :: "char \<Rightarrow> bool" where
  "is_space c = (code c \<in> {9, 10, 11, 12, 13, 32, 160})"

definition is_word :: "char \<Rightarrow> bool" where
  "is_word c = ((97 \<le> code c \<and> code c \<le> 122) \<or> (65 \<le> code c \<and> code c \<le> 90)
      \<or> is_digit c \<or> c = CHR ''_'')"

text \<open>\<^verbatim>\<open>s.includes(pat)\<close>\<close>

fun str_includes :: "string \<Rightarrow> string \<Rightarrow> bool" where
  "str_includes [] pat = (pat = [])"
| "str_includes (c # s) pat = (prefix pat (c # s) \<or> str_includes s pat)"

text \<open>\<^verbatim>\<open>s.startsWith(pat)\<close>\<close>

definition startsWith :: "string \<Rightarrow> string \<Rightarrow> bool" where
  "startsWith s pat = prefix pat s"

text \<open>\<^verbatim>\<open>s.trim()\<close>\<close>

definition trim :: "string \<Rightarrow> string" where
  "trim s = rev (dropWhile is_space (rev (dropWhile is_space s)))"

text \<open>
  \<^verbatim>\<open>s.replace(/pat/g, rep)\<close> for a pattern that is a fixed, non-empty text: every
  occurrence, left to right, non-overlapping.
\<close>

function replaceAll :: "string \<Rightarrow> string \<Rightarrow> string \<Rightarrow> string" where
  "replaceAll pat rep [] = []"
| "replaceAll pat rep (c # s) =
     (if pat \<noteq> [] \<and> prefix pat (c # s)
      then rep @ replaceAll pat rep (drop (length pat) (c # s))
      else c # replaceAll pat rep s)"
  by pat_completeness auto
termination
  by (relation "measure (\<lambda>(pat, rep, s). length s)") (auto simp: neq_Nil_conv)

section \<open>Regular expressions\<close>

text \<open>
  The patterns of the source are transcribed into a small syntax tree and run by a
  backtracking matcher that returns every way to match, in the order in which a
  backtracking engine tries them; the first one is the match JavaScript reports.
\<close>

datatype citem = Ch char | Range char char | Ws | NotWs | Dg

datatype re =
    RLit char
  | RCls "citem list"
  | RNCls "citem list"
  | RDot
  | REps
  | RSeq re re
  | RAlt re re
  | RStar re
  | RLazyStar re
  | RGroup re
  | RBol
  | REol
  | RWordB

text \<open>
  Case folding of the \<^verbatim>\<open>i\<close> flag: a code unit is compared by its upper-case form.
  \<open>decanon\<close> is the lower-case form, used to test a folded code unit against a class.
\<close>

definition canon :: "char \<Rightarrow> char" where
  "canon c = (if (97 \<le> code c \<and> code c \<le> 122) \<or> (224 \<le> code c \<and> code c \<le> 254 \<and> code c \<noteq> 247)
              then char_of (code c - 32) else c)"

definition decanon :: "char \<Rightarrow> char" where
  "decanon c = (if (65 \<le> code c \<and> code c \<le> 90) \<or> (192 \<le> code c \<and> code c \<le> 222 \<and> code c \<noteq> 215)
                then char_of (code c + 32) else c)"

fun citem_has :: "citem \<Rightarrow> char \<Rightarrow> bool" where
  "citem_has (Ch x) c = (c = x)"
| "citem_has (Range a b) c = (code a \<le> code c \<and> code c \<le> code b)"
| "citem_has Ws c = is_space c"
| "citem_has NotWs c = (\<not> is_space c)"
| "citem_has Dg c = is_digit c"

definition cls_has :: "bool \<Rightarrow> citem list \<Rightarrow> char \<Rightarrow> bool" where
  "cls_has ic xs c =
     (\<exists>d \<in> set (if ic then [c, canon c, decanon c] else [c]). \<exists>i \<in> set xs. citem_has i d)"

text \<open>The one-character patterns: a literal, a class, a negated class, the dot.\<close>

fun atom :: "bool \<Rightarrow> re \<Rightarrow> char \<Rightarrow> bool" where
  "atom ic (RLit x) c = (if ic then canon c = canon x else c = x)"
| "atom ic (RCls xs) c = cls_has ic xs c"
| "atom ic (RNCls xs) c = (\<not> cls_has ic xs c)"
| "atom ic RDot c = (code c \<noteq> 10 \<and> code c \<noteq> 13)"
| "atom ic _ c = False"

fun is_atom :: "re \<Rightarrow> bool" where
  "is_atom (RLit x) = True"
| "is_atom (RCls xs) = True"
| "is_atom (RNCls xs) = True"
| "is_atom RDot = True"
| "is_atom _ = False"

text \<open>
  A matcher state: the input already passed (reversed), the input ahead, and the text of
  capture group 1 if the group has matched.
\<close>

type_synonym mstate = "string \<times> string \<times> string option"

definition ahead :: "mstate \<Rightarrow> string" where
  "ahead st = fst (snd st)"

definition step_atom :: "bool \<Rightarrow> re \<Rightarrow> mstate \<Rightarrow> mstate list" where
  "step_atom ic r st =
     (case st of (b, c # s, k) \<Rightarrow> if atom ic r c then [(c # b, s, k)] else [] | (b, [], k) \<Rightarrow> [])"

text \<open>\<^verbatim>\<open>\b\<close>: exactly one of the two neighbours is a word character.\<close>

definition at_wordb :: "string \<Rightarrow> string \<Rightarrow> bool" where
  "at_wordb b s = ((case b of [] \<Rightarrow> False | c # _ \<Rightarrow> is_word c) \<noteq> (case s of [] \<Rightarrow> False | c # _ \<Rightarrow> is_word c))"

function ms :: "bool \<Rightarrow> re \<Rightarrow> mstate \<Rightarrow> mstate list" where
  "ms ic (RLit x) st = step_atom ic (RLit x) st"
| "ms ic (RCls xs) st = step_atom ic (RCls xs) st"
| "ms ic (RNCls xs) st = step_atom ic (RNCls xs) st"
| "ms ic RDot st = step_atom ic RDot st"
| "ms ic REps st = [st]"
| "ms ic (RSeq r1 r2) st = concat (map (ms ic r2) (ms ic r1 st))"
| "ms ic (RAlt r1 r2) st = ms ic r1 st @ ms ic r2 st"
| "ms ic (RStar r) st =
     concat (map (\<lambda>st'. if length (ahead st') < length (ahead st) then ms ic (RStar r) st' else [])
                 (ms ic r st)) @ [st]"
| "ms ic (RLazyStar r) st =
     st # concat (map (\<lambda>st'. if length (ahead st') < length (ahead st) then ms ic (RLazyStar r) st' else [])
                      (ms ic r st))"
| "ms ic (RGroup r) st =
     map (\<lambda>st'. (fst st', ahead st', Some (take (length (ahead st) - length (ahead st')) (ahead st))))
         (ms ic r st)"
| "ms ic RBol st = (if fst st = [] then [st] else [])"
| "ms ic REol st = (if ahead st = [] then [st] else [])"
| "ms ic RWordB st = (if at_wordb (fst st) (ahead st) then [st] else [])"
  by pat_completeness auto
termination
  by (relation "measures [\<lambda>(ic, r, st). size r, \<lambda>(ic, r, st). length (ahead st)]") auto

declare ms.simps(8,9) [simp del]

text \<open>
  \<^verbatim>\<open>s.match(re)\<close> without the \<^verbatim>\<open>g\<close> flag: the match at the leftmost position that has
  one. The result is the reversed text before the match and the state after it.
\<close>

fun search :: "bool \<Rightarrow> re \<Rightarrow> string \<Rightarrow> string \<Rightarrow> (string \<times> mstate) option" where
  "search ic r b [] = (case ms ic r (b, [], None) of [] \<Rightarrow> None | st # _ \<Rightarrow> Some (b, st))"
| "search ic r b (c # s) =
     (case ms ic r (b, c # s, None) of [] \<Rightarrow> search ic r (c # b) s | st # _ \<Rightarrow> Some (b, st))"

text \<open>\<^verbatim>\<open>m = s.match(re); m && m[1]\<close>\<close>

definition match1 :: "bool \<Rightarrow> re \<Rightarrow> string \<Rightarrow> string option" where
  "match1 ic r s = (case search ic r [] s of None \<Rightarrow> None | Some (b, st) \<Rightarrow> snd (snd st))"

text \<open>\<^verbatim>\<open>s.replace(re, rep)\<close> without the \<^verbatim>\<open>g\<close> flag: the first match only.\<close>

definition replace_first :: "bool \<Rightarrow> re \<Rightarrow> string \<Rightarrow> string \<Rightarrow> string" where
  "replace_first ic r rep s =
     (case search ic r [] s of None \<Rightarrow> s | Some (b, st) \<Rightarrow> rev b @ rep @ ahead st)"

text \<open>
  \<^verbatim>\<open>s.matchAll(re)\<close> with the \<^verbatim>\<open>g\<close> flag, as the list of the group-1 texts: each search
  starts where the previous match ended, one further on after an empty match. (In the
  patterns iterated this way group 1 takes part in every match.)
\<close>

function match_all :: "bool \<Rightarrow> re \<Rightarrow> string \<Rightarrow> string \<Rightarrow> string list" where
  "match_all ic r b s =
     (case search ic r b s of
        None \<Rightarrow> []
      | Some (b0, st) \<Rightarrow>
          (case snd (snd st) of None \<Rightarrow> [] | Some g \<Rightarrow> [g]) @
          (if length (ahead st) < length s then match_all ic r (fst st) (ahead st)
           else (case ahead st of
                   [] \<Rightarrow> []
                 | c # t \<Rightarrow> if length t < length s then match_all ic r (c # fst st) t else [])))"
  by pat_completeness auto
termination
  by (relation "measure (\<lambda>(ic, r, b, s). length s)") auto

declare match_all.simps [simp del]

text \<open>Derived pattern forms.\<close>

definition ROpt :: "re \<Rightarrow> re" where
  "ROpt r = RAlt r REps"

definition RPlus :: "re \<Rightarrow> re" where
  "RPlus r = RSeq r (RStar r)"

fun rep_upto :: "nat \<Rightarrow> re \<Rightarrow> re" where
  "rep_upto 0 r = REps"
| "rep_upto (Suc n) r = ROpt (RSeq r (rep_upto n r))"

text \<open>\<^verbatim>\<open>r{m,n}\<close>\<close>

fun rep :: "nat \<Rightarrow> nat \<Rightarrow> re \<Rightarrow> re" where
  "rep 0 n r = rep_upto n r"
| "rep (Suc m) n r = RSeq r (rep m (n - 1) r)"

fun str :: "string \<Rightarrow> re" where
  "str [] = REps"
| "str (c # cs) = RSeq (RLit c) (str cs)"

fun seqs :: "re list \<Rightarrow> re" where
  "seqs [] = REps"
| "seqs (r # rs) = RSeq r (seqs rs)"

fun alts :: "re list \<Rightarrow> re" where
  "alts [] = RNCls [Ws, NotWs]"
| "alts [r] = r"
| "alts (r # rs) = RAlt r (alts rs)"


section \<open>Content script: finding the DOI of a page\<close>

subsection \<open>The patterns\<close>

text \<open>\<^verbatim>\<open>10\.\d{4,9}\/[^...]+\<close>, the part every DOI pattern of the script shares.\<close>

definition doi_body :: "citem list \<Rightarrow> re" where
  "doi_body excl = seqs [str ''10.'', rep 4 9 (RCls [Dg]), RLit CHR ''/'', RPlus (RNCls excl)]"

text \<open>\<^verbatim>\<open>/\b(10\.\d{4,9}\/[^\s"'<>&]+)\b/\<close>\<close>

definition DOI_REGEX :: re where
  "DOI_REGEX = seqs [RWordB, RGroup (doi_body [Ws, Ch DQ, Ch SQ, Ch CHR ''<'', Ch CHR ''>'', Ch CHR ''&'']), RWordB]"

text \<open>\<^verbatim>\<open>/^(doi:|https?:\/\/doi\.org\/)/\<close>\<close>

definition doi_prefix_re :: re where
  "doi_prefix_re = seqs [RBol, RGroup (alts [str ''doi:'', seqs [str ''http'', ROpt (RLit CHR ''s''), str ''://doi.org/'']])]"

text \<open>\<^verbatim>\<open>/https?:\/\/(?:dx\.)?doi\.org\/(10\.\d{4,9}\/[^\s?#]+)/\<close>\<close>

definition doi_org_url_re :: re where
  "doi_org_url_re = seqs [str ''http'', ROpt (RLit CHR ''s''), str ''://'', ROpt (str ''dx.''), str ''doi.org/'',
     RGroup (doi_body [Ws, Ch CHR ''?'', Ch CHR ''#''])]"

text \<open>\<^verbatim>\<open>/\/(?:doi|article|abs|full|pdf)\/?(10\.\d{4,9}\/[^\s?#]+)/\<close>\<close>

definition url_path_re :: re where
  "url_path_re = seqs [RLit CHR ''/'', alts [str ''doi'', str ''article'', str ''abs'', str ''full'', str ''pdf''],
     ROpt (RLit CHR ''/''), RGroup (doi_body [Ws, Ch CHR ''?'', Ch CHR ''#''])]"

text \<open>\<^verbatim>\<open>/(?:dx\.)?doi\.org\/(10\.\d{4,9}\/[^\s?#"']+)/\<close>\<close>

definition doi_link_re :: re where
  "doi_link_re = seqs [ROpt (str ''dx.''), str ''doi.org/'',
     RGroup (doi_body [Ws, Ch CHR ''?'', Ch CHR ''#'', Ch DQ, Ch SQ])]"

text \<open>\<^verbatim>\<open>/["']?doi["']?\s*[:=]\s*["'](10\.\d{4,9}\/[^"']+)["']/i\<close>\<close>

definition script_doi_re :: re where
  "script_doi_re = seqs [ROpt (RCls [Ch DQ, Ch SQ]), str ''doi'', ROpt (RCls [Ch DQ, Ch SQ]),
     RStar (RCls [Ws]), RCls [Ch CHR '':'', Ch CHR ''=''], RStar (RCls [Ws]), RCls [Ch DQ, Ch SQ],
     RGroup (doi_body [Ch DQ, Ch SQ]), RCls [Ch DQ, Ch SQ]]"

text \<open>\<^verbatim>\<open>/[.,;)\]]+$/\<close>\<close>

definition trailing_punct_re :: re where
  "trailing_punct_re = seqs [RPlus (RCls [Ch CHR ''.'', Ch CHR '','', Ch CHR '';'', Ch CHR '')'', Ch CHR '']'']), REol]"

subsection \<open>The page\<close>

text \<open>
  An element is its attributes; \<open>getAttribute\<close> is \<^verbatim>\<open>null\<close> (\<open>None\<close>) for a missing one.
  A selector such as \<^verbatim>\<open>meta[name="dc.identifier"][scheme="doi"]\<close> is the list of
  attribute values it asks for, and \<open>querySelector\<close> returns the first element in
  document order that has them all.
\<close>

type_synonym element = "(string \<times> string) list"
type_synonym selector = "(string \<times> string) list"

definition getAttribute :: "element \<Rightarrow> string \<Rightarrow> string option" where
  "getAttribute el a = map_of el a"

definition sel_matches :: "selector \<Rightarrow> element \<Rightarrow> bool" where
  "sel_matches sel el = list_all (\<lambda>(a, v). getAttribute el a = Some v) sel"

definition querySelector :: "selector \<Rightarrow> element list \<Rightarrow> element option" where
  "querySelector sel els = find (sel_matches sel) els"

text \<open>
  A value as \<^verbatim>\<open>JSON.parse\<close> returns it. An object is the list of its properties (the keys
  distinct); the number carried by \<open>JNum\<close> is never inspected.
\<close>

datatype json = JNull | JBool bool | JNum int | JStr string | JArr "json list" | JObj "(string \<times> json) list"

text \<open>
  What the detector reads of a page: the host name and address of the window, the
  \<^verbatim>\<open>meta\<close> elements, the parsed \<^verbatim>\<open>script[type="application/ld+json"]\<close> blocks (\<open>None\<close>
  where \<^verbatim>\<open>JSON.parse\<close> throws), the \<^verbatim>\<open>a\<close> elements, the text of the
  \<^verbatim>\<open>script:not([src])\<close> elements, and the text of the elements the container selector
  list selects, each in document order.
\<close>

record page =
  hostname :: string
  href :: string
  metas :: "element list"
  ld_json :: "json option list"
  anchors :: "element list"
  inline_scripts :: "string list"
  containers :: "string list"

definition IGNORE_DOMAINS :: "string list" where
  "IGNORE_DOMAINS = [''google.com'', ''bing.com'', ''duckduckgo.com'', ''facebook.com'', ''twitter.com'',
     ''x.com'', ''reddit.com'', ''youtube.com'', ''github.com'', ''sci-hub.'']"

definition shouldIgnorePage :: "page \<Rightarrow> bool" where
  "shouldIgnorePage p = list_ex (\<lambda>d. str_includes (hostname p) d) IGNORE_DOMAINS"

definition metaSelectors :: "selector list" where
  "metaSelectors =
    [[(''name'', ''citation_doi'')],
     [(''name'', ''dc.identifier''), (''scheme'', ''doi'')],
     [(''name'', ''dc.identifier'')],
     [(''name'', ''DC.identifier'')],
     [(''name'', ''DC.Identifier'')],
     [(''name'', ''doi'')],
     [(''name'', ''DOI'')],
     [(''property'', ''citation_doi'')],
     [(''name'', ''prism.doi'')],
     [(''name'', ''bepress_citation_doi'')],
     [(''name'', ''eprints.id_number'')]]"

text \<open>\<^verbatim>\<open>val.replace(/^(doi:|https?:\/\/doi\.org\/)/, "").match(DOI_REGEX)\<close>, then group 1.\<close>

definition doi_of_text :: "string \<Rightarrow> string option" where
  "doi_of_text v = match1 False DOI_REGEX (replace_first False doi_prefix_re [] v)"

text \<open>Tier 1, the loop over \<open>metaSelectors\<close>.\<close>

fun meta_tier :: "selector list \<Rightarrow> element list \<Rightarrow> string option" where
  "meta_tier [] els = None"
| "meta_tier (sel # sels) els =
     (case querySelector sel els of
        None \<Rightarrow> meta_tier sels els
      | Some el \<Rightarrow>
          (case doi_of_text (case getAttribute el ''content'' of None \<Rightarrow> [] | Some c \<Rightarrow> c) of
             Some d \<Rightarrow> Some d
           | None \<Rightarrow> meta_tier sels els))"

text \<open>The first text of a list that a pattern matches gives the result: its group 1.\<close>

fun first_match :: "bool \<Rightarrow> re \<Rightarrow> string list \<Rightarrow> string option" where
  "first_match ic r [] = None"
| "first_match ic r (t # ts) =
     (case match1 ic r t of Some d \<Rightarrow> Some d | None \<Rightarrow> first_match ic r ts)"

subsection \<open>Structured data\<close>

definition LD_KEYS :: "string list" where
  "LD_KEYS = [''doi'', ''DOI'', ''@id'', ''identifier'', ''sameAs'']"

text \<open>The inner loop over the items of an array-valued key: only strings are looked at.\<close>

fun ld_string_items :: "json list \<Rightarrow> string option" where
  "ld_string_items [] = None"
| "ld_string_items (JStr s # xs) =
     (case doi_of_text s of Some d \<Rightarrow> Some d | None \<Rightarrow> ld_string_items xs)"
| "ld_string_items (x # xs) = ld_string_items xs"

text \<open>The loop over the key names, on the properties of one object.\<close>

fun ld_keys :: "string list \<Rightarrow> (string \<times> json) list \<Rightarrow> string option" where
  "ld_keys [] props = None"
| "ld_keys (key # keys) props =
     (case map_of props key of
        Some (JStr v) \<Rightarrow> (case doi_of_text v of Some d \<Rightarrow> Some d | None \<Rightarrow> ld_keys keys props)
      | Some (JArr items) \<Rightarrow> (case ld_string_items items of Some d \<Rightarrow> Some d | None \<Rightarrow> ld_keys keys props)
      | _ \<Rightarrow> ld_keys keys props)"

text \<open>
  \<open>extractDOIFromLD\<close>: an array is searched item by item, an object by its keys, and
  anything else (the falsy values among them) gives \<^verbatim>\<open>null\<close>.
\<close>

fun extractDOIFromLD :: "json \<Rightarrow> string option"
  and extractDOIFromLD_items :: "json list \<Rightarrow> string option" where
  "extractDOIFromLD (JArr items) = extractDOIFromLD_items items"
| "extractDOIFromLD (JObj props) = ld_keys LD_KEYS props"
| "extractDOIFromLD JNull = None"
| "extractDOIFromLD (JBool b) = None"
| "extractDOIFromLD (JNum n) = None"
| "extractDOIFromLD (JStr s) = None"
| "extractDOIFromLD_items [] = None"
| "extractDOIFromLD_items (x # xs) =
     (case extractDOIFromLD x of Some d \<Rightarrow> Some d | None \<Rightarrow> extractDOIFromLD_items xs)"

text \<open>Tier 3: a block that does not parse is skipped.\<close>

fun ld_tier :: "json option list \<Rightarrow> string option" where
  "ld_tier [] = None"
| "ld_tier (None # bs) = ld_tier bs"
| "ld_tier (Some data # bs) =
     (case extractDOIFromLD data of Some d \<Rightarrow> Some d | None \<Rightarrow> ld_tier bs)"

subsection \<open>The detector\<close>

text \<open>\<^verbatim>\<open>a[href*="doi.org/10."], a[href*="dx.doi.org/10."]\<close>\<close>

definition is_doi_link :: "element \<Rightarrow> bool" where
  "is_doi_link el =
     (case getAttribute el ''href'' of
        None \<Rightarrow> False
      | Some h \<Rightarrow> str_includes h ''doi.org/10.'' \<or> str_includes h ''dx.doi.org/10.'')"

definition link_hrefs :: "element list \<Rightarrow> string list" where
  "link_hrefs els = map (\<lambda>el. case getAttribute el ''href'' of None \<Rightarrow> [] | Some h \<Rightarrow> h) (filter is_doi_link els)"

definition detectDOI :: "page \<Rightarrow> string option" where
  "detectDOI p =
     (case meta_tier metaSelectors (metas p) of Some d \<Rightarrow> Some d | None \<Rightarrow>
      case match1 False doi_org_url_re (href p) of Some d \<Rightarrow> Some d | None \<Rightarrow>
      case match1 False url_path_re (href p) of Some d \<Rightarrow> Some d | None \<Rightarrow>
      case ld_tier (ld_json p) of Some d \<Rightarrow> Some d | None \<Rightarrow>
      case first_match False doi_link_re (link_hrefs (anchors p)) of Some d \<Rightarrow> Some d | None \<Rightarrow>
      case first_match True script_doi_re (inline_scripts p) of Some d \<Rightarrow> Some d | None \<Rightarrow>
      first_match False DOI_REGEX (containers p))"

definition cleanDOI :: "string \<Rightarrow> string" where
  "cleanDOI doi = replace_first False trailing_punct_re [] doi"

text \<open>
  The injected control is modelled by the DOI it carries: \<open>None\<close> while the page has no
  element \<^verbatim>\<open>scihub-ext-btn\<close>.
\<close>

definition injectButton :: "string \<Rightarrow> string option \<Rightarrow> string option" where
  "injectButton doi btn = (case btn of Some b \<Rightarrow> Some b | None \<Rightarrow> Some doi)"

definition init :: "page \<Rightarrow> string option \<Rightarrow> string option" where
  "init p btn =
     (if shouldIgnorePage p then btn
      else case detectDOI p of
             None \<Rightarrow> btn
           | Some doi \<Rightarrow>
               if doi = [] then btn
               else let cleaned = cleanDOI doi in
                    if cleaned = [] then btn else injectButton cleaned btn)"

text \<open>
  The script body: \<open>init\<close> on the loaded page and, if no control is there two seconds
  later, once more on the page as it is then.
\<close>

definition content_script :: "page \<Rightarrow> page \<Rightarrow> string option" where
  "content_script p p' = (let btn = init p None in if btn = None then init p' btn else btn)"


section \<open>Background worker: resolving and saving the file\<close>

text \<open>
  The repository holds two versions of the worker. One parses the mirror's answer with
  \<^verbatim>\<open>DOMParser\<close> and checks the fetched file before saving it as a blob
  (\<^verbatim>\<open>src/background.js\<close>; names ending in \<open>_dom\<close> and \<open>_blob\<close>). The other scans the answer
  with regular expressions and hands the address to the download manager (names ending
  in \<open>_re\<close> and \<open>_direct\<close>). \<open>handleDownload\<close> is the same in both.
\<close>

definition SCIHUB_MIRRORS :: "string list" where
  "SCIHUB_MIRRORS = [''https://sci-hub.vg'', ''https://sci-hub.al'', ''https://sci-hub.mk'', ''https://sci-hub.ru'']"

subsection \<open>The platform\<close>

text \<open>
  A \<^verbatim>\<open>fetch\<close> response: the \<^verbatim>\<open>Content-Type\<close> header if present, the final address
  (\<^verbatim>\<open>res.url\<close>), and the body, which is either read in full or fails with a message.
\<close>

record response =
  content_type :: "string option"
  final_url :: string
  payload :: "string + string"

text \<open>What the worker asks of a parsed document, each the answer of one selector.\<close>

record document =
  iframe_src :: "string option"
  embed_pdf_src :: "string option"
  embed_src :: "string option"
  object_data :: "string option"
  button_onclicks :: "string list"
  script_texts :: "string list"

datatype dl_source = RemoteUrl string | BlobOf string

text \<open>
  The requests the worker sends, in the order it sends them: the lookup at a mirror, the
  requests for the file, and the call of \<^verbatim>\<open>chrome.downloads.download\<close> with its source
  and file name. Console output is left out.
\<close>

datatype event = MirrorGet string | FileGet string | FileHead string | DownloadCall dl_source string

text \<open>
  The platform answers each request; the answer may depend on how many requests came
  before. A rejected promise is \<open>Inl\<close> of the error's message.
\<close>

record env =
  fetch_get :: "nat \<Rightarrow> string \<Rightarrow> string + response"
  parse_html :: "string \<Rightarrow> document"
  downloads_download :: "nat \<Rightarrow> dl_source \<Rightarrow> string \<Rightarrow> string + nat"

text \<open>\<^verbatim>\<open>res.headers.get("Content-Type") || ""\<close>\<close>

definition header_ct :: "response \<Rightarrow> string" where
  "header_ct res = (case content_type res of None \<Rightarrow> [] | Some c \<Rightarrow> c)"

subsection \<open>Normalising a reference\<close>

text \<open>\<^verbatim>\<open>/#.*$/\<close>\<close>

definition fragment_re :: re where
  "fragment_re = seqs [RLit CHR ''#'', RStar RDot, REol]"

definition resolve_against :: "string \<Rightarrow> string \<Rightarrow> string" where
  "resolve_against mirror url =
     (if startsWith url ''//'' then ''https:'' @ url
      else if startsWith url ''/'' then mirror @ url
      else if startsWith url ''http'' then url
      else mirror @ ''/'' @ url)"

definition normalizeUrl_re :: "string \<Rightarrow> string \<Rightarrow> string option" where
  "normalizeUrl_re url mirror =
     (if url = [] then None
      else Some (resolve_against mirror
                   (replace_first False fragment_re [] (replaceAll ''&amp;'' ''&'' (trim url)))))"

definition normalizeUrl_dom :: "string \<Rightarrow> string \<Rightarrow> string option" where
  "normalizeUrl_dom url mirror =
     (if url = [] then None
      else Some (resolve_against mirror (replace_first False fragment_re [] (trim url))))"

subsection \<open>Finding the reference in a mirror's answer\<close>

definition attr_tail :: "string \<Rightarrow> re list" where
  "attr_tail name = [str name, RStar (RCls [Ws]), RLit CHR ''='', RStar (RCls [Ws]), RCls [Ch DQ, Ch SQ],
     RGroup (RPlus (RNCls [Ch DQ, Ch SQ])), RCls [Ch DQ, Ch SQ]]"

definition pdf_type_attr :: "re list" where
  "pdf_type_attr = [str ''type'', RStar (RCls [Ws]), RLit CHR ''='', RStar (RCls [Ws]), RCls [Ch DQ, Ch SQ],
     str ''application/pdf'', RCls [Ch DQ, Ch SQ]]"

text \<open>\<^verbatim>\<open>/<iframe[^>]+src\s*=\s*["']([^"']+)["']/i\<close>\<close>

definition iframe_re :: re where
  "iframe_re = seqs ([str ''<iframe'', RPlus (RNCls [Ch CHR ''>''])] @ attr_tail ''src'')"

text \<open>\<^verbatim>\<open>/<embed[^>]+type\s*=\s*["']application\/pdf["'][^>]+src\s*=\s*["']([^"']+)["']/i\<close>\<close>

definition embed_pdf_re :: re where
  "embed_pdf_re = seqs ([str ''<embed'', RPlus (RNCls [Ch CHR ''>''])] @ pdf_type_attr @
     [RPlus (RNCls [Ch CHR ''>''])] @ attr_tail ''src'')"

text \<open>\<^verbatim>\<open>/<embed[^>]+src\s*=\s*["']([^"']+)["'][^>]+type\s*=\s*["']application\/pdf["']/i\<close>\<close>

definition embed_pdf_re2 :: re where
  "embed_pdf_re2 = seqs ([str ''<embed'', RPlus (RNCls [Ch CHR ''>''])] @ attr_tail ''src'' @
     [RPlus (RNCls [Ch CHR ''>''])] @ pdf_type_attr)"

text \<open>\<^verbatim>\<open>/<embed[^>]+src\s*=\s*["']([^"']+)["']/i\<close>\<close>

definition embed_re :: re where
  "embed_re = seqs ([str ''<embed'', RPlus (RNCls [Ch CHR ''>''])] @ attr_tail ''src'')"

text \<open>\<^verbatim>\<open>/<object[^>]+data\s*=\s*["']([^"']+)["']/i\<close>\<close>

definition object_re :: re where
  "object_re = seqs ([str ''<object'', RPlus (RNCls [Ch CHR ''>''])] @ attr_tail ''data'')"

text \<open>\<^verbatim>\<open>/<button[^>]+onclick\s*=\s*["']([^"']+)["']/gi\<close>\<close>

definition button_re :: re where
  "button_re = seqs ([str ''<button'', RPlus (RNCls [Ch CHR ''>''])] @ attr_tail ''onclick'')"

text \<open>\<^verbatim>\<open>/location\.href\s*=\s*['"]([^'"]+\.pdf[^'"]*)/\<close>\<close>

definition location_re :: re where
  "location_re = seqs [str ''location.href'', RStar (RCls [Ws]), RLit CHR ''='', RStar (RCls [Ws]),
     RCls [Ch SQ, Ch DQ],
     RGroup (seqs [RPlus (RNCls [Ch SQ, Ch DQ]), str ''.pdf'', RStar (RNCls [Ch SQ, Ch DQ])])]"

text \<open>\<^verbatim>\<open>/<script[^>]*>([\s\S]*?)<\/script>/gi\<close>\<close>

definition script_re :: re where
  "script_re = seqs [str ''<script'', RStar (RNCls [Ch CHR ''>'']), RLit CHR ''>'',
     RGroup (RLazyStar (RCls [Ws, NotWs])), str ''</script>'']"

text \<open>\<^verbatim>\<open>/(https?:\/\/[^\s"<>']+\.pdf[^\s"<>']*)/\<close>\<close>

definition pdf_url_re :: re where
  "pdf_url_re = RGroup (seqs [str ''http'', ROpt (RLit CHR ''s''), str ''://'',
     RPlus (RNCls [Ws, Ch DQ, Ch CHR ''<'', Ch CHR ''>'', Ch SQ]), str ''.pdf'',
     RStar (RNCls [Ws, Ch DQ, Ch CHR ''<'', Ch CHR ''>'', Ch SQ])])"

text \<open>\<^verbatim>\<open>/(?:src|href|data)\s*=\s*["']((?:https?:)?\/\/[^"']+\.pdf[^"']*)/i\<close>\<close>

definition any_pdf_re :: re where
  "any_pdf_re = seqs [alts [str ''src'', str ''href'', str ''data''], RStar (RCls [Ws]), RLit CHR ''='',
     RStar (RCls [Ws]), RCls [Ch DQ, Ch SQ],
     RGroup (seqs [ROpt (seqs [str ''http'', ROpt (RLit CHR ''s''), RLit CHR '':'']), str ''//'',
                   RPlus (RNCls [Ch DQ, Ch SQ]), str ''.pdf'', RStar (RNCls [Ch DQ, Ch SQ])])]"

text \<open>\<^verbatim>\<open>dataUrl.includes(".pdf") || dataUrl.includes("/pdf/") || dataUrl.includes("/storage/")\<close>\<close>

definition looks_like_file :: "string \<Rightarrow> bool" where
  "looks_like_file d = (str_includes d ''.pdf'' \<or> str_includes d ''/pdf/'' \<or> str_includes d ''/storage/'')"

text \<open>\<^verbatim>\<open>s.replace(/\\\//g, "/")\<close>\<close>

definition unescape_slashes :: "string \<Rightarrow> string" where
  "unescape_slashes s = replaceAll [CHR 0x5C, CHR ''/''] ''/'' s"

text \<open>
  The priority tiers of the scan. \<open>extract_re\<close> is the chain of tests of the regular
  expression version of \<open>findPDFUrl\<close> up to the text each \<^verbatim>\<open>return\<close> starts from, with the
  tier that found it; \<open>finish_re\<close> is what that \<^verbatim>\<open>return\<close> does with the text.
\<close>

datatype tier = Iframe | EmbedPdf | EmbedAny | ObjectData | ButtonHandler | ScriptText | AnyAttribute

definition extract_re :: "string \<Rightarrow> (tier \<times> string) option" where
  "extract_re html =
     (case match1 True iframe_re html of Some u \<Rightarrow> Some (Iframe, u) | None \<Rightarrow>
      case match1 True embed_pdf_re html of Some u \<Rightarrow> Some (EmbedPdf, u) | None \<Rightarrow>
      case match1 True embed_pdf_re2 html of Some u \<Rightarrow> Some (EmbedPdf, u) | None \<Rightarrow>
      case match1 True embed_re html of Some u \<Rightarrow> Some (EmbedAny, u) | None \<Rightarrow>
      case (case match1 True object_re html of
              Some d \<Rightarrow> if looks_like_file d then Some d else None
            | None \<Rightarrow> None) of Some d \<Rightarrow> Some (ObjectData, d) | None \<Rightarrow>
      case first_match False location_re (match_all True button_re [] html) of
        Some u \<Rightarrow> Some (ButtonHandler, unescape_slashes u) | None \<Rightarrow>
      case first_match False pdf_url_re (match_all True script_re [] html) of
        Some u \<Rightarrow> Some (ScriptText, u) | None \<Rightarrow>
      case match1 True any_pdf_re html of Some u \<Rightarrow> Some (AnyAttribute, u) | None \<Rightarrow> None)"

definition finish_re :: "string \<Rightarrow> tier \<times> string \<Rightarrow> string option" where
  "finish_re mirror found =
     (case found of (t, u) \<Rightarrow> if t = ScriptText then Some u else normalizeUrl_re u mirror)"

definition scan_re :: "string \<Rightarrow> string \<Rightarrow> string option" where
  "scan_re mirror html = (case extract_re html of None \<Rightarrow> None | Some found \<Rightarrow> finish_re mirror found)"

text \<open>The same chain on a document parsed by \<^verbatim>\<open>DOMParser\<close>.\<close>

definition extract_dom :: "document \<Rightarrow> (tier \<times> string) option" where
  "extract_dom doc =
     (case iframe_src doc of Some u \<Rightarrow> Some (Iframe, u) | None \<Rightarrow>
      case embed_pdf_src doc of Some u \<Rightarrow> Some (EmbedPdf, u) | None \<Rightarrow>
      case embed_src doc of Some u \<Rightarrow> Some (EmbedAny, u) | None \<Rightarrow>
      case (case object_data doc of
              Some d \<Rightarrow> if looks_like_file d then Some d else None
            | None \<Rightarrow> None) of Some d \<Rightarrow> Some (ObjectData, d) | None \<Rightarrow>
      case first_match False location_re (button_onclicks doc) of
        Some u \<Rightarrow> Some (ButtonHandler, unescape_slashes u) | None \<Rightarrow>
      case first_match False pdf_url_re (script_texts doc) of
        Some u \<Rightarrow> Some (ScriptText, u) | None \<Rightarrow> None)"

definition scan_dom :: "string \<Rightarrow> document \<Rightarrow> string option" where
  "scan_dom mirror doc =
     (case extract_dom doc of
        None \<Rightarrow> None
      | Some (t, u) \<Rightarrow> if t = ScriptText then Some u else normalizeUrl_dom u mirror)"

text \<open>
  \<open>findPDFUrl\<close>: one request to the mirror. The result is the error thrown, or the
  address found, or \<^verbatim>\<open>null\<close>; with it comes the list of requests sent so far.
\<close>

definition findPDFUrl :: "(env \<Rightarrow> string \<Rightarrow> string \<Rightarrow> string option) \<Rightarrow> env \<Rightarrow> string \<Rightarrow> string \<Rightarrow> event list
    \<Rightarrow> (string + string option) \<times> event list" where
  "findPDFUrl scan E mirror doi tr =
     (let url = mirror @ ''/'' @ doi; tr1 = tr @ [MirrorGet url] in
      case fetch_get E (length tr) url of
        Inl e \<Rightarrow> (Inl e, tr1)
      | Inr res \<Rightarrow>
          if str_includes (header_ct res) ''application/pdf'' then (Inr (Some (final_url res)), tr1)
          else case payload res of
                 Inl e \<Rightarrow> (Inl e, tr1)
               | Inr html \<Rightarrow>
                   if str_includes html ''Just a moment'' \<and> str_includes html ''cf_chl''
                   then (Inl ''Cloudflare challenge'', tr1)
                   else (Inr (scan E mirror html), tr1))"

definition findPDFUrl_re :: "env \<Rightarrow> string \<Rightarrow> string \<Rightarrow> event list \<Rightarrow> (string + string option) \<times> event list" where
  "findPDFUrl_re = findPDFUrl (\<lambda>E mirror html. scan_re mirror html)"

definition findPDFUrl_dom :: "env \<Rightarrow> string \<Rightarrow> string \<Rightarrow> event list \<Rightarrow> (string + string option) \<times> event list" where
  "findPDFUrl_dom = findPDFUrl (\<lambda>E mirror html. scan_dom mirror (parse_html E html))"

subsection \<open>Saving the file\<close>

text \<open>\<^verbatim>\<open>doi.replace(/\//g, "_").replace(/[^a-zA-Z0-9._-]/g, "")\<close>\<close>

definition name_char :: "char \<Rightarrow> bool" where
  "name_char c = ((97 \<le> code c \<and> code c \<le> 122) \<or> (65 \<le> code c \<and> code c \<le> 90) \<or> (48 \<le> code c \<and> code c \<le> 57)
      \<or> c = CHR ''.'' \<or> c = CHR ''_'' \<or> c = CHR ''-'')"

definition filename_stem :: "string \<Rightarrow> string" where
  "filename_stem doi = filter name_char (map (\<lambda>c. if c = CHR ''/'' then CHR ''_'' else c) doi)"

text \<open>
  \<open>downloadFromUrl\<close> of \<^verbatim>\<open>src/background.js\<close>: fetch the file, check the declared type and
  the first five bytes, then save the blob.
\<close>

definition downloadFromUrl_blob :: "env \<Rightarrow> string \<Rightarrow> string \<Rightarrow> event list \<Rightarrow> (string + nat) \<times> event list" where
  "downloadFromUrl_blob E pdfUrl doi tr =
     (let tr1 = tr @ [FileGet pdfUrl] in
      case fetch_get E (length tr) pdfUrl of
        Inl e \<Rightarrow> (Inl e, tr1)
      | Inr res \<Rightarrow>
          if \<not> str_includes (header_ct res) ''application/pdf''
          then (Inl (''Response is not a PDF (got '' @ header_ct res @ '')''), tr1)
          else case payload res of
                 Inl e \<Rightarrow> (Inl e, tr1)
               | Inr blob \<Rightarrow>
                   if \<not> startsWith (take 5 blob) ''%PDF-'' then (Inl ''Invalid PDF content'', tr1)
                   else let filename = filename_stem doi @ ''.pdf'' in
                        (downloads_download E (length tr1) (BlobOf blob) filename,
                         tr1 @ [DownloadCall (BlobOf blob) filename]))"

text \<open>
  \<open>downloadFromUrl\<close> of the other version: a \<^verbatim>\<open>HEAD\<close> request whose answer is only
  logged, then the address itself goes to the download manager.
\<close>

definition downloadFromUrl_direct :: "env \<Rightarrow> string \<Rightarrow> string \<Rightarrow> event list \<Rightarrow> (string + nat) \<times> event list" where
  "downloadFromUrl_direct E pdfUrl doi tr =
     (let tr1 = tr @ [FileHead pdfUrl];
          filename = filename_stem doi @ ''.pdf'' in
      (downloads_download E (length tr1) (RemoteUrl pdfUrl) filename,
       tr1 @ [DownloadCall (RemoteUrl pdfUrl) filename]))"

subsection \<open>The loop over the mirrors\<close>

datatype outcome = Success | Failure string

type_synonym finder = "env \<Rightarrow> string \<Rightarrow> string \<Rightarrow> event list \<Rightarrow> (string + string option) \<times> event list"
type_synonym saver = "env \<Rightarrow> string \<Rightarrow> string \<Rightarrow> event list \<Rightarrow> (string + nat) \<times> event list"

text \<open>
  One pass through the body of the \<^verbatim>\<open>for\<close> loop of \<open>handleDownload\<close>: the message the
  pass leaves in \<open>lastError\<close> (by one of the two assignments before \<^verbatim>\<open>continue\<close>, in the
  \<^verbatim>\<open>try\<close> block or in the \<^verbatim>\<open>catch\<close> block), or \<open>Inr ()\<close> when the file was saved.
\<close>

definition attempt :: "finder \<Rightarrow> saver \<Rightarrow> env \<Rightarrow> string \<Rightarrow> string \<Rightarrow> event list \<Rightarrow> (string + unit) \<times> event list" where
  "attempt fnd sav E doi mirror tr =
     (case fnd E mirror doi tr of
        (Inl e, tr1) \<Rightarrow> (Inl e, tr1)
      | (Inr None, tr1) \<Rightarrow> (Inl ''Could not find PDF URL'', tr1)
      | (Inr (Some pdfUrl), tr1) \<Rightarrow>
          if pdfUrl = [] then (Inl ''Could not find PDF URL'', tr1)
          else (case sav E pdfUrl doi tr1 of
                  (Inl e, tr2) \<Rightarrow> (Inl e, tr2)
                | (Inr downloadId, tr2) \<Rightarrow> (Inr (), tr2)))"

text \<open>
  The loop over the mirrors still to try, with \<open>lastError\<close> and the requests sent so far;
  after the last mirror, \<^verbatim>\<open>lastError || "All mirrors failed"\<close> (\<open>final_message\<close>: the
  fixed text stands in for \<^verbatim>\<open>null\<close> and for the empty message).
\<close>

definition final_message :: "string option \<Rightarrow> string" where
  "final_message lastError =
     (case lastError of
        None \<Rightarrow> ''All mirrors failed''
      | Some e \<Rightarrow> if e = [] then ''All mirrors failed'' else e)"

fun mirror_loop :: "finder \<Rightarrow> saver \<Rightarrow> env \<Rightarrow> string \<Rightarrow> string list \<Rightarrow> string option \<Rightarrow> event list
    \<Rightarrow> outcome \<times> event list" where
  "mirror_loop fnd sav E doi [] lastError tr = (Failure (final_message lastError), tr)"
| "mirror_loop fnd sav E doi (mirror # rest) lastError tr =
     (case attempt fnd sav E doi mirror tr of
        (Inl e, tr1) \<Rightarrow> mirror_loop fnd sav E doi rest (Some e) tr1
      | (Inr done, tr1) \<Rightarrow> (Success, tr1))"

definition handleDownload :: "finder \<Rightarrow> saver \<Rightarrow> env \<Rightarrow> string \<Rightarrow> outcome \<times> event list" where
  "handleDownload fnd sav E doi = mirror_loop fnd sav E doi SCIHUB_MIRRORS None []"

definition handleDownload_dom :: "env \<Rightarrow> string \<Rightarrow> outcome \<times> event list" where
  "handleDownload_dom = handleDownload findPDFUrl_dom downloadFromUrl_blob"

definition handleDownload_re :: "env \<Rightarrow> string \<Rightarrow> outcome \<times> event list" where
  "handleDownload_re = handleDownload findPDFUrl_re downloadFromUrl_direct"


subsection \<open>Observing a run\<close>

text \<open>The addresses of the mirror lookups among the requests sent, in order.\<close>

fun mirror_gets :: "event list \<Rightarrow> string list" where
  "mirror_gets [] = []"
| "mirror_gets (MirrorGet u # evs) = u # mirror_gets evs"
| "mirror_gets (ev # evs) = mirror_gets evs"

text \<open>The calls of the download manager among the requests sent.\<close>

fun download_calls :: "event list \<Rightarrow> (dl_source \<times> string) list" where
  "download_calls [] = []"
| "download_calls (DownloadCall src name # evs) = (src, name) # download_calls evs"
| "download_calls (ev # evs) = download_calls evs"

text \<open>What each pass of the loop left behind, for the passes the loop makes.\<close>

fun attempt_log :: "finder \<Rightarrow> saver \<Rightarrow> env \<Rightarrow> string \<Rightarrow> string list \<Rightarrow> event list \<Rightarrow> (string + unit) list" where
  "attempt_log fnd sav E doi [] tr = []"
| "attempt_log fnd sav E doi (mirror # rest) tr =
     (case attempt fnd sav E doi mirror tr of
        (Inl e, tr1) \<Rightarrow> Inl e # attempt_log fnd sav E doi rest tr1
      | (Inr done, tr1) \<Rightarrow> [Inr done])"

subsection \<open>Sample platforms\<close>

text \<open>
  Platforms for the examples. \<open>env_not_a_pdf\<close>: every address answers with the declared
  type \<^verbatim>\<open>application/pdf\<close> and an HTML error page as its body; the download manager
  accepts every call.
\<close>

definition empty_document :: document where
  "empty_document = \<lparr>iframe_src = None, embed_pdf_src = None, embed_src = None, object_data = None,
     button_onclicks = [], script_texts = []\<rparr>"

definition env_not_a_pdf :: env where
  "env_not_a_pdf =
     \<lparr>fetch_get = (\<lambda>n u. Inr \<lparr>content_type = Some ''application/pdf'', final_url = u,
                                payload = Inr ''<html>Not found</html>''\<rparr>),
      parse_html = (\<lambda>html. empty_document),
      downloads_download = (\<lambda>n src name. Inr 1)\<rparr>"

text \<open>\<open>env_offline\<close>: every request fails with the browser's network error.\<close>

definition env_offline :: env where
  "env_offline =
     \<lparr>fetch_get = (\<lambda>n u. Inl ''Failed to fetch''),
      parse_html = (\<lambda>html. empty_document),
      downloads_download = (\<lambda>n src name. Inl ''Download canceled'')\<rparr>"

text \<open>
  \<open>env_silent_failure\<close>: every mirror answers with a file, and the download manager
  reports an error that carries no message (\<^verbatim>\<open>chrome.runtime.lastError.message\<close> is
  optional; \<^verbatim>\<open>new Error(undefined).message\<close> is the empty string).
\<close>

definition env_silent_failure :: env where
  "env_silent_failure =
     \<lparr>fetch_get = (\<lambda>n u. Inr \<lparr>content_type = Some ''application/pdf'', final_url = u,
                                payload = Inr ''%PDF-1.4''\<rparr>),
      parse_html = (\<lambda>html. empty_document),
      downloads_download = (\<lambda>n src name. Inl [])\<rparr>"

text \<open>
  \<open>env_first_mirror_wrong_type\<close>: the first mirror redirects to a file address that then
  answers with an HTML page; every other request fails with a network error.
\<close>

definition env_first_mirror_wrong_type :: env where
  "env_first_mirror_wrong_type =
     \<lparr>fetch_get = (\<lambda>n u.
        if u = ''https://sci-hub.vg/10.1000/182''
        then Inr \<lparr>content_type = Some ''application/pdf'', final_url = ''https://cdn.example/182.pdf'',
                  payload = Inr []\<rparr>
        else if u = ''https://cdn.example/182.pdf''
        then Inr \<lparr>content_type = Some ''text/html'', final_url = u, payload = Inr ''<html>gone</html>''\<rparr>
        else Inl ''Failed to fetch''),
      parse_html = (\<lambda>html. empty_document),
      downloads_download = (\<lambda>n src name. Inr 1)\<rparr>"

subsection \<open>Sample pages\<close>

text \<open>A search result page that carries a publisher's DOI tag.\<close>

definition page_scholar :: page where
  "page_scholar =
     \<lparr>hostname = ''scholar.google.com'',
      href = ''https://scholar.google.com/scholar?q=nature12373'',
      metas = [[(''name'', ''citation_doi''), (''content'', ''10.1038/nature12373'')]],
      ld_json = [], anchors = [], inline_scripts = [], containers = []\<rparr>"

subsection \<open>What a pattern can match\<close>

text \<open>
  The texts a pattern can consume, whatever surrounds them (an anchor consumes nothing),
  and the bodies of the capture groups of a pattern. They are used to state what a
  successful match can have captured.
\<close>

definition kstar :: "string set \<Rightarrow> string set" where
  "kstar A = {concat ws |ws. set ws \<subseteq> A}"

fun lang :: "bool \<Rightarrow> re \<Rightarrow> string set" where
  "lang ic (RLit x) = {[c] |c. atom ic (RLit x) c}"
| "lang ic (RCls xs) = {[c] |c. atom ic (RCls xs) c}"
| "lang ic (RNCls xs) = {[c] |c. atom ic (RNCls xs) c}"
| "lang ic RDot = {[c] |c. atom ic RDot c}"
| "lang ic REps = {[]}"
| "lang ic (RSeq r1 r2) = {u @ v |u v. u \<in> lang ic r1 \<and> v \<in> lang ic r2}"
| "lang ic (RAlt r1 r2) = lang ic r1 \<union> lang ic r2"
| "lang ic (RStar r) = kstar (lang ic r)"
| "lang ic (RLazyStar r) = kstar (lang ic r)"
| "lang ic (RGroup r) = lang ic r"
| "lang ic RBol = {[]}"
| "lang ic REol = {[]}"
| "lang ic RWordB = {[]}"

fun groups :: "re \<Rightarrow> re set" where
  "groups (RSeq r1 r2) = groups r1 \<union> groups r2"
| "groups (RAlt r1 r2) = groups r1 \<union> groups r2"
| "groups (RStar r) = groups r"
| "groups (RLazyStar r) = groups r"
| "groups (RGroup r) = insert r (groups r)"
| "groups _ = {}"

text \<open>\<open>moved st w st'\<close>: the matcher went from \<open>st\<close> to \<open>st'\<close> by passing the text \<open>w\<close>.\<close>

definition moved :: "mstate \<Rightarrow> string \<Rightarrow> mstate \<Rightarrow> bool" where
  "moved st w st' \<longleftrightarrow> ahead st = w @ ahead st' \<and> fst st' = rev w @ fst st"

text \<open>
  The shape shared by everything the DOI patterns capture: \<^verbatim>\<open>10.\<close>, four to nine digits,
  a slash, and a non-empty rest without the characters the pattern excludes.
\<close>

definition doi_shape :: "bool \<Rightarrow> citem list \<Rightarrow> string \<Rightarrow> bool" where
  "doi_shape ic excl d \<longleftrightarrow>
     (\<exists>ds tok. d = ''10.'' @ ds @ ''/'' @ tok \<and> 4 \<le> length ds \<and> length ds \<le> 9 \<and> (\<forall>c \<in> set ds. is_digit c)
        \<and> tok \<noteq> [] \<and> (\<forall>c \<in> set tok. \<not> cls_has ic excl c))"

subsection \<open>The DOI syntax\<close>

text \<open>
  The identifier syntax in the words of the specification, \<^verbatim>\<open>10.<4-9 digits>/<token>\<close>:
  the text \<^verbatim>\<open>10.\<close>, four to nine digits, a slash, and a token that is not empty and has
  no white space, quote, angle bracket or ampersand.
\<close>

definition token_char :: "char \<Rightarrow> bool" where
  "token_char c = (\<not> is_space c \<and> c \<notin> set [DQ, SQ, CHR ''<'', CHR ''>'', CHR ''&''])"

definition is_doi_syntax :: "string \<Rightarrow> bool" where
  "is_doi_syntax d =
     (prefix ''10.'' d \<and>
      (let ds = takeWhile is_digit (drop 3 d); t = dropWhile is_digit (drop 3 d) in
       4 \<le> length ds \<and> length ds \<le> 9 \<and>
       (case t of [] \<Rightarrow> False | c # tok \<Rightarrow> c = CHR ''/'' \<and> tok \<noteq> [] \<and> list_all token_char tok)))"

text \<open>
  The texts a structured-data value offers under the key names \<open>LD_KEYS\<close>: for each
  object reached through arrays, the string under a key or the strings of the array
  under it.
\<close>

fun key_strings :: "json \<Rightarrow> string list" where
  "key_strings (JStr v) = [v]"
| "key_strings (JArr items) = concat (map (\<lambda>x. case x of JStr s \<Rightarrow> [s] | _ \<Rightarrow> []) items)"
| "key_strings _ = []"

definition object_strings :: "(string \<times> json) list \<Rightarrow> string list" where
  "object_strings props =
     concat (map (\<lambda>key. case map_of props key of None \<Rightarrow> [] | Some v \<Rightarrow> key_strings v) LD_KEYS)"

fun ld_candidates :: "json \<Rightarrow> string list" and ld_candidates_items :: "json list \<Rightarrow> string list" where
  "ld_candidates (JArr items) = ld_candidates_items items"
| "ld_candidates (JObj props) = object_strings props"
| "ld_candidates JNull = []"
| "ld_candidates (JBool b) = []"
| "ld_candidates (JNum n) = []"
| "ld_candidates (JStr s) = []"
| "ld_candidates_items [] = []"
| "ld_candidates_items (x # xs) = ld_candidates x @ ld_candidates_items xs"

text \<open>A structured-data block: an array with a number and an article object.\<close>

definition ld_sample :: json where
  "ld_sample = JArr [JNum 3, JObj [(''name'', JStr ''doi:10.9999/zzz''), (''@id'', JStr ''https://doi.org/10.1000/182'')]]"

text \<open>
  \<open>mfirst ic r st st'\<close>: the first way the matcher finds to match \<open>r\<close> from \<open>st\<close> ends in
  \<open>st'\<close>. \<open>stops ic r s\<close>: the one-character pattern \<open>r\<close> cannot go on into \<open>s\<close>.
\<close>

definition mfirst :: "bool \<Rightarrow> re \<Rightarrow> mstate \<Rightarrow> mstate \<Rightarrow> bool" where
  "mfirst ic r st st' \<longleftrightarrow> (\<exists>more. ms ic r st = st' # more)"

definition stops :: "bool \<Rightarrow> re \<Rightarrow> string \<Rightarrow> bool" where
  "stops ic r s = (case s of [] \<Rightarrow> True | c # _ \<Rightarrow> \<not> atom ic r c)"

text \<open>
  An article page: a viewport tag, a DOI tag with the \<^verbatim>\<open>doi:\<close> prefix, and an address
  in which the URL tier would find another identifier.
\<close>

definition page_article :: page where
  "page_article =
     \<lparr>hostname = ''www.nature.com'',
      href = ''https://www.nature.com/doi/10.9999/other'',
      metas = [[(''name'', ''viewport''), (''content'', ''width=device-width'')],
               [(''name'', ''citation_doi''), (''content'', ''doi:10.1038/nature12373'')]],
      ld_json = [], anchors = [], inline_scripts = [], containers = []\<rparr>"

text \<open>
  What is left of the DOI syntax after cleaning: \<^verbatim>\<open>10.\<close>, four to nine digits and a
  slash; the rest may be anything, also empty.
\<close>

definition doi_prefix_ok :: "string \<Rightarrow> bool" where
  "doi_prefix_ok d =
     (prefix ''10.'' d \<and>
      (let ds = takeWhile is_digit (drop 3 d) in
       4 \<le> length ds \<and> length ds \<le> 9 \<and> prefix ''/'' (dropWhile is_digit (drop 3 d))))"

definition trailing_punct :: "char \<Rightarrow> bool" where
  "trailing_punct c = (c \<in> set ''.,;)]'')"

text \<open>
  A page at the resolver, reached through an address that ends in a comma (as a link
  cut out of running text does).
\<close>

definition page_doi_org :: page where
  "page_doi_org =
     \<lparr>hostname = ''doi.org'', href = ''https://doi.org/10.1234/,'', metas = [],
      ld_json = [], anchors = [], inline_scripts = [], containers = []\<rparr>"




text \<open>
  \<open>starts_word s\<close>: the text begins with a word character. \<open>at_boundary st\<close>: the matcher
  stands at a word boundary.
\<close>

definition starts_word :: "string \<Rightarrow> bool" where
  "starts_word s = (case s of [] \<Rightarrow> False | c # _ \<Rightarrow> is_word c)"

definition at_boundary :: "mstate \<Rightarrow> bool" where
  "at_boundary st = at_wordb (fst st) (ahead st)"

text \<open>
  Pages with several meta tags: one whose identifier ends in a full stop behind a
  resolver address, after a tag without an identifier; and one whose identifier ends in
  a closing bracket.
\<close>

definition page_tags :: page where
  "page_tags =
     \<lparr>hostname = ''journals.example.org'',
      href = ''https://journals.example.org/article/10.9999/other'',
      metas = [[(''name'', ''viewport''), (''content'', ''width=device-width'')],
               [(''name'', ''dc.identifier''), (''content'', ''issn:1476-4687'')],
               [(''name'', ''prism.doi''), (''content'', ''DOI: https://doi.org/10.1038/nature12373.'')],
               [(''name'', ''bepress_citation_doi''), (''content'', ''10.5555/later'')]],
      ld_json = [], anchors = [], inline_scripts = [], containers = []\<rparr>"

definition page_sici :: page where
  "page_sici =
     \<lparr>hostname = ''onlinelibrary.example.org'',
      href = ''https://onlinelibrary.example.org/'',
      metas = [[(''name'', ''citation_doi''), (''content'', ''10.1002/(SICI)1097-4571(1997)'')]],
      ld_json = [], anchors = [], inline_scripts = [], containers = []\<rparr>"









section \<open>Properties of the file name\<close>

lemma name_char_not_slash: "name_char c \<Longrightarrow> c \<noteq> CHR ''/''"
  by (auto simp: name_char_def code_def)

text \<open>
  Claim C8. The file name derivation (every \<^verbatim>\<open>/\<close> becomes \<^verbatim>\<open>_\<close>, then every character
  outside \<^verbatim>\<open>[a-zA-Z0-9._-]\<close> is deleted) is a function of the identifier and is
  idempotent: applying it twice gives the same text as applying it once.
\<close>

theorem filename_stem_idempotent: "filename_stem (filename_stem doi) = filename_stem doi"
proof -
  let ?f = "\<lambda>c. if c = CHR ''/'' then CHR ''_'' else c"
  have "map ?f (filename_stem doi) = filename_stem doi"
    by (rule map_idI) (auto simp: filename_stem_def dest: name_char_not_slash)
  then show ?thesis
    by (simp add: filename_stem_def)
qed

section \<open>Properties of the download pipeline\<close>

lemma mirror_gets_append: "mirror_gets (xs @ ys) = mirror_gets xs @ mirror_gets ys"
  by (induction xs rule: mirror_gets.induct) auto

lemma findPDFUrl_trace: "snd (findPDFUrl scan E mirror doi tr) = tr @ [MirrorGet (mirror @ ''/'' @ doi)]"
  by (simp add: findPDFUrl_def Let_def split: sum.splits)

lemma blob_trace: "mirror_gets (snd (downloadFromUrl_blob E u doi tr)) = mirror_gets tr"
  by (simp add: downloadFromUrl_blob_def Let_def mirror_gets_append split: sum.splits)

lemma direct_trace: "mirror_gets (snd (downloadFromUrl_direct E u doi tr)) = mirror_gets tr"
  by (simp add: downloadFromUrl_direct_def Let_def mirror_gets_append)

text \<open>
  A finder that sends exactly one lookup, to \<open>mirror/doi\<close>, and a saver that sends none:
  then one pass of the loop sends exactly that lookup.
\<close>

lemma attempt_gets:
  assumes fnd: "\<And>E m doi tr. mirror_gets (snd (fnd E m doi tr)) = mirror_gets tr @ [m @ ''/'' @ doi]"
      and sav: "\<And>E u doi tr. mirror_gets (snd (sav E u doi tr)) = mirror_gets tr"
  shows "mirror_gets (snd (attempt fnd sav E doi m tr)) = mirror_gets tr @ [m @ ''/'' @ doi]"
proof -
  obtain r tr1 where f: "fnd E m doi tr = (r, tr1)" by (cases "fnd E m doi tr")
  have g: "mirror_gets tr1 = mirror_gets tr @ [m @ ''/'' @ doi]"
    using fnd[of E m doi tr] f by simp
  show ?thesis
  proof (cases r)
    case (Inl e)
    with f g show ?thesis by (simp add: attempt_def)
  next
    case (Inr o1)
    show ?thesis
    proof (cases o1)
      case None
      with Inr f g show ?thesis by (simp add: attempt_def)
    next
      case (Some u)
      obtain r2 tr2 where sv: "sav E u doi tr1 = (r2, tr2)" by (cases "sav E u doi tr1")
      with sav[of E u doi tr1] have "mirror_gets tr2 = mirror_gets tr1" by simp
      with Some Inr f g sv show ?thesis
        by (cases r2) (simp_all add: attempt_def)
    qed
  qed
qed

lemma mirror_loop_gets:
  assumes fnd: "\<And>E m doi tr. mirror_gets (snd (fnd E m doi tr)) = mirror_gets tr @ [m @ ''/'' @ doi]"
      and sav: "\<And>E u doi tr. mirror_gets (snd (sav E u doi tr)) = mirror_gets tr"
  shows "\<exists>k. mirror_gets (snd (mirror_loop fnd sav E doi mirrors le tr))
               = mirror_gets tr @ map (\<lambda>m. m @ ''/'' @ doi) (take k mirrors)
            \<and> (fst (mirror_loop fnd sav E doi mirrors le tr) \<noteq> Success \<longrightarrow> k = length mirrors)"
proof (induction mirrors arbitrary: le tr)
  case Nil
  show ?case by simp
next
  case (Cons m mirrors)
  obtain r tr1 where a: "attempt fnd sav E doi m tr = (r, tr1)" by (cases "attempt fnd sav E doi m tr")
  have g: "mirror_gets tr1 = mirror_gets tr @ [m @ ''/'' @ doi]"
    using attempt_gets[of fnd sav E doi m tr, OF fnd sav] a by simp
  show ?case
  proof (cases r)
    case (Inl e)
    from Cons.IH[of "Some e" tr1] obtain k where
      k: "mirror_gets (snd (mirror_loop fnd sav E doi mirrors (Some e) tr1))
            = mirror_gets tr1 @ map (\<lambda>m. m @ ''/'' @ doi) (take k mirrors)"
         "fst (mirror_loop fnd sav E doi mirrors (Some e) tr1) \<noteq> Success \<longrightarrow> k = length mirrors"
      by blast
    show ?thesis
      by (rule exI[of _ "Suc k"]) (use a Inl g k in simp)
  next
    case (Inr u)
    show ?thesis
      by (rule exI[of _ "Suc 0"]) (use a Inr g in simp)
  qed
qed

lemma dom_lookups:
  "\<exists>k. mirror_gets (snd (handleDownload_dom E doi)) = map (\<lambda>m. m @ ''/'' @ doi) (take k SCIHUB_MIRRORS)
      \<and> (fst (handleDownload_dom E doi) \<noteq> Success \<longrightarrow> k = length SCIHUB_MIRRORS)"
  using mirror_loop_gets[of findPDFUrl_dom downloadFromUrl_blob E doi SCIHUB_MIRRORS None "[]"]
  by (simp add: handleDownload_dom_def handleDownload_def findPDFUrl_dom_def findPDFUrl_trace
      blob_trace mirror_gets_append)

lemma re_lookups:
  "\<exists>k. mirror_gets (snd (handleDownload_re E doi)) = map (\<lambda>m. m @ ''/'' @ doi) (take k SCIHUB_MIRRORS)
      \<and> (fst (handleDownload_re E doi) \<noteq> Success \<longrightarrow> k = length SCIHUB_MIRRORS)"
  using mirror_loop_gets[of findPDFUrl_re downloadFromUrl_direct E doi SCIHUB_MIRRORS None "[]"]
  by (simp add: handleDownload_re_def handleDownload_def findPDFUrl_re_def findPDFUrl_trace
      direct_trace mirror_gets_append)

lemma distinct_lookups: "distinct (map (\<lambda>m. m @ ''/'' @ doi) (take k SCIHUB_MIRRORS))"
proof -
  have "distinct SCIHUB_MIRRORS" by (simp add: SCIHUB_MIRRORS_def)
  then show ?thesis
    by (simp add: distinct_map distinct_take inj_on_def)
qed

text \<open>
  Claim C9. In one run of \<open>handleDownload\<close> (either version of the worker) the mirror
  lookups sent are the addresses \<open>mirror/doi\<close> of an initial stretch of \<open>SCIHUB_MIRRORS\<close>, in
  the order of that list, and no lookup address occurs twice.
\<close>

theorem lookups_are_prefix_of_mirror_list:
  "(\<exists>k. mirror_gets (snd (handleDownload_re E doi)) = map (\<lambda>m. m @ ''/'' @ doi) (take k SCIHUB_MIRRORS))
   \<and> distinct (mirror_gets (snd (handleDownload_re E doi)))
   \<and> (\<exists>k. mirror_gets (snd (handleDownload_dom E doi)) = map (\<lambda>m. m @ ''/'' @ doi) (take k SCIHUB_MIRRORS))
   \<and> distinct (mirror_gets (snd (handleDownload_dom E doi)))"
proof -
  from re_lookups[of E doi]
  obtain k where k: "mirror_gets (snd (handleDownload_re E doi)) = map (\<lambda>m. m @ ''/'' @ doi) (take k SCIHUB_MIRRORS)"
    by blast
  from dom_lookups[of E doi]
  obtain j where j: "mirror_gets (snd (handleDownload_dom E doi)) = map (\<lambda>m. m @ ''/'' @ doi) (take j SCIHUB_MIRRORS)"
    by blast
  from k j show ?thesis
    using distinct_lookups[of doi k] distinct_lookups[of doi j] by auto
qed

lemma download_calls_append: "download_calls (xs @ ys) = download_calls xs @ download_calls ys"
  by (induction xs rule: download_calls.induct) auto

lemma startsWith_signature: "startsWith (take 5 blob) ''%PDF-'' \<longleftrightarrow> take 5 blob = ''%PDF-''"
proof
  assume "startsWith (take 5 blob) ''%PDF-''"
  then obtain zs where z: "take 5 blob = ''%PDF-'' @ zs"
    by (auto simp: startsWith_def prefix_def)
  have "length (take 5 blob) \<le> 5" by simp
  with z have "length (''%PDF-'' @ zs) \<le> 5" by simp
  then have "zs = []" by simp
  with z show "take 5 blob = ''%PDF-''" by simp
next
  assume "take 5 blob = ''%PDF-''"
  then show "startsWith (take 5 blob) ''%PDF-''" by (simp add: startsWith_def)
qed

text \<open>
  Claim C1, as amended. In the version of the worker that fetches the file itself
  (\<open>downloadFromUrl_blob\<close>), a payload that was fetched with a declared type containing
  \<^verbatim>\<open>application/pdf\<close> and whose first five bytes are not \<^verbatim>\<open>%PDF-\<close> makes the download
  fail with the message \<^verbatim>\<open>Invalid PDF content\<close>; the only request sent is the fetch of the
  file, so the download manager is not called. The other version (\<open>downloadFromUrl_direct\<close>)
  never reads the payload: it sends a \<^verbatim>\<open>HEAD\<close> request and then always calls the download
  manager with the address.
\<close>

theorem downloadFromUrl_signature_check:
  assumes "fetch_get E (length tr) pdfUrl = Inr res"
      and "str_includes (header_ct res) ''application/pdf''"
      and "payload res = Inr blob"
      and "take 5 blob \<noteq> ''%PDF-''"
  shows "downloadFromUrl_blob E pdfUrl doi tr = (Inl ''Invalid PDF content'', tr @ [FileGet pdfUrl])
       \<and> download_calls (snd (downloadFromUrl_blob E pdfUrl doi tr)) = download_calls tr
       \<and> snd (downloadFromUrl_direct E pdfUrl doi tr)
           = tr @ [FileHead pdfUrl, DownloadCall (RemoteUrl pdfUrl) (filename_stem doi @ ''.pdf'')]"
  using assms
  by (simp add: downloadFromUrl_blob_def downloadFromUrl_direct_def startsWith_signature Let_def
      download_calls_append)

text \<open>The theorem at a file address that answers with an HTML page declared as PDF.\<close>

theorem downloadFromUrl_signature_check_witness:
  "downloadFromUrl_blob env_not_a_pdf ''https://cdn.example/182.pdf'' ''10.1000/182'' []
     = (Inl ''Invalid PDF content'', [FileGet ''https://cdn.example/182.pdf''])
   \<and> download_calls (snd (downloadFromUrl_blob env_not_a_pdf ''https://cdn.example/182.pdf'' ''10.1000/182'' [])) = []"
  using downloadFromUrl_signature_check[of env_not_a_pdf "[]" "''https://cdn.example/182.pdf''"
      "\<lparr>content_type = Some ''application/pdf'', final_url = ''https://cdn.example/182.pdf'',
        payload = Inr ''<html>Not found</html>''\<rparr>"
      "''<html>Not found</html>''" "''10.1000/182''"]
  by (simp add: env_not_a_pdf_def header_ct_def)

text \<open>
  Claim C1 as stated fails on the version that hands the address to the download
  manager: the address serves a payload that does not start with \<^verbatim>\<open>%PDF-\<close>, and the
  download manager is called all the same and the download succeeds.
\<close>

theorem downloadFromUrl_direct_saves_unchecked:
  "fetch_get env_not_a_pdf 1 ''https://cdn.example/182.pdf''
     = Inr \<lparr>content_type = Some ''application/pdf'', final_url = ''https://cdn.example/182.pdf'',
            payload = Inr ''<html>Not found</html>''\<rparr>
   \<and> take 5 ''<html>Not found</html>'' \<noteq> ''%PDF-''
   \<and> downloadFromUrl_direct env_not_a_pdf ''https://cdn.example/182.pdf'' ''10.1000/182'' []
     = (Inr 1, [FileHead ''https://cdn.example/182.pdf'',
                DownloadCall (RemoteUrl ''https://cdn.example/182.pdf'') ''10.1000_182.pdf''])"
  by (simp add: env_not_a_pdf_def downloadFromUrl_direct_def filename_stem_def name_char_def code_def Let_def)

lemma attempt_log_all_failed:
  "attempt_log fnd sav E doi mirrors tr = map Inl es \<Longrightarrow>
   fst (mirror_loop fnd sav E doi mirrors le tr) = Failure (final_message (if es = [] then le else Some (last es)))"
proof (induction mirrors arbitrary: le tr es)
  case Nil
  then show ?case by simp
next
  case (Cons m mirrors)
  obtain r tr1 where a: "attempt fnd sav E doi m tr = (r, tr1)" by (cases "attempt fnd sav E doi m tr")
  show ?case
  proof (cases r)
    case (Inl e)
    with Cons.prems a obtain es' where es: "es = e # es'" "attempt_log fnd sav E doi mirrors tr1 = map Inl es'"
      by (cases es) auto
    from Cons.IH[OF es(2), of "Some e"] a Inl es show ?thesis by simp
  next
    case (Inr u)
    with Cons.prems a show ?thesis by (cases es) auto
  qed
qed

text \<open>
  Claim C5, as amended. When every pass over the configured mirrors ends in an error
  (the passes leave the messages \<open>es\<close>, one for each mirror), the outcome is a failure that
  carries the message of the last pass alone, never a combination of the messages; only
  when that last message is empty does the fixed text \<^verbatim>\<open>All mirrors failed\<close> stand in for it.
\<close>

theorem exhaustion_reports_last_error:
  assumes "attempt_log fnd sav E doi SCIHUB_MIRRORS [] = map Inl es"
  shows "fst (handleDownload fnd sav E doi)
           = Failure (if last es = [] then ''All mirrors failed'' else last es)"
proof -
  from assms have "es \<noteq> []"
    by (auto simp: SCIHUB_MIRRORS_def split: prod.splits sum.splits)
  with attempt_log_all_failed[OF assms, of None] show ?thesis
    by (simp add: handleDownload_def final_message_def)
qed

lemma offline_log:
  "attempt_log findPDFUrl_re downloadFromUrl_direct env_offline ''10.1000/182'' SCIHUB_MIRRORS []
     = map Inl [''Failed to fetch'', ''Failed to fetch'', ''Failed to fetch'', ''Failed to fetch'']"
  by (simp add: SCIHUB_MIRRORS_def attempt_def findPDFUrl_re_def findPDFUrl_def env_offline_def Let_def)

text \<open>The theorem on a platform without network: the last mirror's error is reported.\<close>

theorem exhaustion_reports_last_error_witness:
  "attempt_log findPDFUrl_re downloadFromUrl_direct env_offline ''10.1000/182'' SCIHUB_MIRRORS []
     = map Inl [''Failed to fetch'', ''Failed to fetch'', ''Failed to fetch'', ''Failed to fetch'']
   \<and> fst (handleDownload findPDFUrl_re downloadFromUrl_direct env_offline ''10.1000/182'') = Failure ''Failed to fetch''"
  using exhaustion_reports_last_error[OF offline_log] offline_log by simp

text \<open>
  Claim C5 as stated fails when the last error has an empty message: every pass leaves
  the empty message, and the reported error is \<^verbatim>\<open>All mirrors failed\<close>, which no pass recorded.
\<close>

theorem empty_last_error_replaced:
  "attempt_log findPDFUrl_re downloadFromUrl_direct env_silent_failure ''10.1000/182'' SCIHUB_MIRRORS []
     = [Inl [], Inl [], Inl [], Inl []]
   \<and> fst (handleDownload_re env_silent_failure ''10.1000/182'') = Failure ''All mirrors failed''"
  by (simp add: SCIHUB_MIRRORS_def attempt_def findPDFUrl_re_def findPDFUrl_def env_silent_failure_def Let_def
      handleDownload_re_def handleDownload_def downloadFromUrl_direct_def header_ct_def final_message_def)

text \<open>
  Claim C3, as amended. An error inside one pass never ends the loop early: when
  \<open>handleDownload\<close> does not succeed, every mirror of the list has been looked up. A
  validation failure after a reference was found is treated like every other error of a
  pass: its message becomes \<open>lastError\<close> and the loop goes on with the mirrors that are
  left; it is the message of the request when no mirror is left.
\<close>

theorem mirror_errors_never_abort:
  "(fst (handleDownload_dom E doi) \<noteq> Success \<longrightarrow>
      mirror_gets (snd (handleDownload_dom E doi)) = map (\<lambda>m. m @ ''/'' @ doi) SCIHUB_MIRRORS)
   \<and> (findPDFUrl_dom E m doi tr = (Inr (Some u), tr1) \<and> u \<noteq> [] \<and> downloadFromUrl_blob E u doi tr1 = (Inl e, tr2) \<longrightarrow>
        mirror_loop findPDFUrl_dom downloadFromUrl_blob E doi (m # rest) le tr
          = mirror_loop findPDFUrl_dom downloadFromUrl_blob E doi rest (Some e) tr2
        \<and> mirror_loop findPDFUrl_dom downloadFromUrl_blob E doi [m] le tr = (Failure (final_message (Some e)), tr2))"
  using dom_lookups[of E doi] by (auto simp: attempt_def)

lemma wrong_type_find:
  "findPDFUrl_dom env_first_mirror_wrong_type ''https://sci-hub.vg'' ''10.1000/182'' []
     = (Inr (Some ''https://cdn.example/182.pdf''), [MirrorGet ''https://sci-hub.vg/10.1000/182''])"
  by (simp add: findPDFUrl_dom_def findPDFUrl_def env_first_mirror_wrong_type_def Let_def header_ct_def)

lemma wrong_type_save:
  "downloadFromUrl_blob env_first_mirror_wrong_type ''https://cdn.example/182.pdf'' ''10.1000/182''
       [MirrorGet ''https://sci-hub.vg/10.1000/182'']
     = (Inl ''Response is not a PDF (got text/html)'',
        [MirrorGet ''https://sci-hub.vg/10.1000/182'', FileGet ''https://cdn.example/182.pdf''])"
  by (simp add: downloadFromUrl_blob_def env_first_mirror_wrong_type_def Let_def header_ct_def)

lemma wrong_type_outcome:
  "fst (handleDownload_dom env_first_mirror_wrong_type ''10.1000/182'') = Failure ''Failed to fetch''"
  by (simp add: SCIHUB_MIRRORS_def attempt_def findPDFUrl_dom_def findPDFUrl_def env_first_mirror_wrong_type_def Let_def
      handleDownload_dom_def handleDownload_def downloadFromUrl_blob_def header_ct_def final_message_def)

text \<open>
  The theorem on a platform whose first mirror leads to an HTML page: all four mirrors
  are looked up, and with the first mirror alone the validation failure is the outcome.
\<close>

theorem mirror_errors_never_abort_witness:
  "fst (handleDownload_dom env_first_mirror_wrong_type ''10.1000/182'') \<noteq> Success
   \<and> mirror_gets (snd (handleDownload_dom env_first_mirror_wrong_type ''10.1000/182''))
       = [''https://sci-hub.vg/10.1000/182'', ''https://sci-hub.al/10.1000/182'',
          ''https://sci-hub.mk/10.1000/182'', ''https://sci-hub.ru/10.1000/182'']
   \<and> mirror_loop findPDFUrl_dom downloadFromUrl_blob env_first_mirror_wrong_type ''10.1000/182''
        [''https://sci-hub.vg''] None []
       = (Failure ''Response is not a PDF (got text/html)'',
          [MirrorGet ''https://sci-hub.vg/10.1000/182'', FileGet ''https://cdn.example/182.pdf''])"
  using mirror_errors_never_abort[of env_first_mirror_wrong_type "''10.1000/182''" "''https://sci-hub.vg''" "[]"
      "''https://cdn.example/182.pdf''" "[MirrorGet ''https://sci-hub.vg/10.1000/182'']"
      "''Response is not a PDF (got text/html)''"
      "[MirrorGet ''https://sci-hub.vg/10.1000/182'', FileGet ''https://cdn.example/182.pdf'']" "[]" None]
    wrong_type_find wrong_type_save wrong_type_outcome
  by (simp add: SCIHUB_MIRRORS_def final_message_def)

text \<open>
  Claim C3 as stated fails in its second half: the first mirror resolves a reference
  and the validation of the file fails, yet the message the request ends with is the
  network error of the last mirror.
\<close>

theorem validation_failure_not_surfaced:
  "attempt findPDFUrl_dom downloadFromUrl_blob env_first_mirror_wrong_type ''10.1000/182'' ''https://sci-hub.vg'' []
     = (Inl ''Response is not a PDF (got text/html)'',
        [MirrorGet ''https://sci-hub.vg/10.1000/182'', FileGet ''https://cdn.example/182.pdf''])
   \<and> fst (handleDownload_dom env_first_mirror_wrong_type ''10.1000/182'') = Failure ''Failed to fetch''"
  by (simp add: SCIHUB_MIRRORS_def attempt_def findPDFUrl_dom_def findPDFUrl_def env_first_mirror_wrong_type_def Let_def
      handleDownload_dom_def handleDownload_def downloadFromUrl_blob_def header_ct_def final_message_def)

section \<open>Properties of the content script\<close>

text \<open>
  Claim C6. On a page whose host name contains an entry of the ignore list, \<open>init\<close>
  leaves the page as it is: no identifier is produced and no control is attached,
  whatever the meta tags, address, structured data, links, scripts and text of the page
  are; the second run two seconds later attaches nothing either.
\<close>

theorem ignored_host_no_control:
  assumes "d \<in> set IGNORE_DOMAINS" and "str_includes (hostname p) d"
  shows "init p btn = btn \<and> (hostname p' = hostname p \<longrightarrow> content_script p p' = None)"
proof -
  from assms have "shouldIgnorePage p"
    by (auto simp: shouldIgnorePage_def list_ex_iff)
  moreover have "hostname p' = hostname p \<Longrightarrow> shouldIgnorePage p'"
    using assms by (auto simp: shouldIgnorePage_def list_ex_iff)
  ultimately show ?thesis
    by (auto simp: init_def content_script_def Let_def)
qed

text \<open>The theorem on a search result page that carries a valid DOI meta tag.\<close>

theorem ignored_host_no_control_witness:
  "''google.com'' \<in> set IGNORE_DOMAINS \<and> str_includes (hostname page_scholar) ''google.com''
   \<and> getAttribute (hd (metas page_scholar)) ''content'' = Some ''10.1038/nature12373''
   \<and> init page_scholar None = None \<and> content_script page_scholar page_scholar = None"
  using ignored_host_no_control[of "''google.com''" page_scholar None page_scholar]
  by (simp add: IGNORE_DOMAINS_def page_scholar_def getAttribute_def)

section \<open>Properties of the matcher\<close>

lemma moved_refl: "moved st [] st"
  by (simp add: moved_def)

lemma moved_trans: "moved st u st1 \<Longrightarrow> moved st1 v st2 \<Longrightarrow> moved st (u @ v) st2"
  by (simp add: moved_def)

lemma step_atom_iff:
  "st' \<in> set (step_atom ic r st) \<longleftrightarrow>
     (\<exists>c. atom ic r c \<and> ahead st = c # ahead st' \<and> fst st' = c # fst st \<and> snd (snd st') = snd (snd st))"
proof -
  obtain b s k where st: "st = (b, s, k)" by (cases st)
  obtain b' s' k' where st': "st' = (b', s', k')" by (cases st')
  show ?thesis
    by (cases s) (auto simp: st st' step_atom_def ahead_def)
qed

lemma star_concat: "u \<in> A \<Longrightarrow> v \<in> kstar A \<Longrightarrow> u @ v \<in> kstar A"
proof -
  assume u: "u \<in> A" and "v \<in> kstar A"
  then obtain ws where "v = concat ws" "set ws \<subseteq> A" by (auto simp: kstar_def)
  with u have "u @ v = concat (u # ws)" "set (u # ws) \<subseteq> A" by auto
  then show ?thesis unfolding kstar_def by blast
qed

lemma star_nil: "[] \<in> kstar A"
  unfolding kstar_def by (rule CollectI, rule exI[of _ "[]"]) simp

lemma ms_star_iff:
  "st' \<in> set (ms ic (RStar r) st) \<longleftrightarrow>
     st' = st \<or> (\<exists>st1 \<in> set (ms ic r st). length (ahead st1) < length (ahead st) \<and> st' \<in> set (ms ic (RStar r) st1))"
  by (subst ms.simps) auto

lemma ms_lazy_iff:
  "st' \<in> set (ms ic (RLazyStar r) st) \<longleftrightarrow>
     st' = st \<or> (\<exists>st1 \<in> set (ms ic r st). length (ahead st1) < length (ahead st) \<and> st' \<in> set (ms ic (RLazyStar r) st1))"
  by (subst ms.simps) auto

lemma ms_sound:
  "st' \<in> set (ms ic r st) \<Longrightarrow> \<exists>w \<in> lang ic r. moved st w st'"
proof (induction ic r st arbitrary: st' rule: ms.induct)
  case (6 ic r1 r2 st)
  from "6.prems" obtain st1 where s1: "st1 \<in> set (ms ic r1 st)" and s2: "st' \<in> set (ms ic r2 st1)"
    by auto
  from "6.IH"(1)[OF s1] obtain u where u: "u \<in> lang ic r1" "moved st u st1" by blast
  from "6.IH"(2)[OF s1 s2] obtain v where v: "v \<in> lang ic r2" "moved st1 v st'" by blast
  from u v have "u @ v \<in> lang ic (RSeq r1 r2)" by auto
  with moved_trans[OF u(2) v(2)] show ?case by blast
next
  case (7 ic r1 r2 st)
  from "7.prems" have "st' \<in> set (ms ic r1 st) \<or> st' \<in> set (ms ic r2 st)" by simp
  then show ?case
  proof
    assume "st' \<in> set (ms ic r1 st)"
    from "7.IH"(1)[OF this] show ?thesis by auto
  next
    assume "st' \<in> set (ms ic r2 st)"
    from "7.IH"(2)[OF this] show ?thesis by auto
  qed
next
  case (8 ic r st)
  from "8.prems" consider "st' = st"
    | st1 where "st1 \<in> set (ms ic r st)" "length (ahead st1) < length (ahead st)" "st' \<in> set (ms ic (RStar r) st1)"
    using ms_star_iff[of st' ic r st] by blast
  then show ?case
  proof cases
    case 1
    with star_nil[of "lang ic r"] moved_refl[of st] show ?thesis by auto
  next
    case 2
    from "8.IH"(1)[OF 2(1)] obtain u where u: "u \<in> lang ic r" "moved st u st1" by blast
    from "8.IH"(2)[OF 2(1) 2(2) 2(3)] obtain v where v: "v \<in> lang ic (RStar r)" "moved st1 v st'" by blast
    from u v have "u @ v \<in> lang ic (RStar r)" using star_concat[of u "lang ic r" v] by simp
    with moved_trans[OF u(2) v(2)] show ?thesis by blast
  qed
next
  case (9 ic r st)
  from "9.prems" consider "st' = st"
    | st1 where "st1 \<in> set (ms ic r st)" "length (ahead st1) < length (ahead st)" "st' \<in> set (ms ic (RLazyStar r) st1)"
    using ms_lazy_iff[of st' ic r st] by blast
  then show ?case
  proof cases
    case 1
    with star_nil[of "lang ic r"] moved_refl[of st] show ?thesis by auto
  next
    case 2
    from "9.IH"(1)[OF 2(1)] obtain u where u: "u \<in> lang ic r" "moved st u st1" by blast
    from "9.IH"(2)[OF 2(1) 2(2) 2(3)] obtain v where v: "v \<in> lang ic (RLazyStar r)" "moved st1 v st'" by blast
    from u v have "u @ v \<in> lang ic (RLazyStar r)" using star_concat[of u "lang ic r" v] by simp
    with moved_trans[OF u(2) v(2)] show ?thesis by blast
  qed
next
  case (10 ic r st)
  from "10.prems" obtain st1 where s1: "st1 \<in> set (ms ic r st)"
    and st': "st' = (fst st1, ahead st1, Some (take (length (ahead st) - length (ahead st1)) (ahead st)))"
    by auto
  from "10.IH"[OF s1] obtain w where w: "w \<in> lang ic r" "moved st w st1" by blast
  then have "moved st w st'" using st' by (simp add: moved_def ahead_def)
  with w show ?case by auto
qed (auto simp: step_atom_iff moved_def split: if_splits)

lemma ms_capture:
  "st' \<in> set (ms ic r st) \<Longrightarrow>
     snd (snd st') = snd (snd st) \<or> (\<exists>body \<in> groups r. \<exists>g \<in> lang ic body. snd (snd st') = Some g)"
proof (induction ic r st arbitrary: st' rule: ms.induct)
  case (6 ic r1 r2 st)
  from "6.prems" obtain st1 where s1: "st1 \<in> set (ms ic r1 st)" and s2: "st' \<in> set (ms ic r2 st1)"
    by auto
  from "6.IH"(1)[OF s1] "6.IH"(2)[OF s1 s2] show ?case by auto
next
  case (7 ic r1 r2 st)
  from "7.prems" have "st' \<in> set (ms ic r1 st) \<or> st' \<in> set (ms ic r2 st)" by simp
  then show ?case
  proof
    assume "st' \<in> set (ms ic r1 st)"
    from "7.IH"(1)[OF this] show ?thesis by auto
  next
    assume "st' \<in> set (ms ic r2 st)"
    from "7.IH"(2)[OF this] show ?thesis by auto
  qed
next
  case (8 ic r st)
  from "8.prems" consider "st' = st"
    | st1 where "st1 \<in> set (ms ic r st)" "length (ahead st1) < length (ahead st)" "st' \<in> set (ms ic (RStar r) st1)"
    using ms_star_iff[of st' ic r st] by blast
  then show ?case
  proof cases
    case 1
    then show ?thesis by simp
  next
    case 2
    from "8.IH"(1)[OF 2(1)] "8.IH"(2)[OF 2(1) 2(2) 2(3)] show ?thesis by auto
  qed
next
  case (9 ic r st)
  from "9.prems" consider "st' = st"
    | st1 where "st1 \<in> set (ms ic r st)" "length (ahead st1) < length (ahead st)" "st' \<in> set (ms ic (RLazyStar r) st1)"
    using ms_lazy_iff[of st' ic r st] by blast
  then show ?case
  proof cases
    case 1
    then show ?thesis by simp
  next
    case 2
    from "9.IH"(1)[OF 2(1)] "9.IH"(2)[OF 2(1) 2(2) 2(3)] show ?thesis by auto
  qed
next
  case (10 ic r st)
  from "10.prems" obtain st1 where s1: "st1 \<in> set (ms ic r st)"
    and st': "st' = (fst st1, ahead st1, Some (take (length (ahead st) - length (ahead st1)) (ahead st)))"
    by auto
  from ms_sound[OF s1] obtain w where w: "w \<in> lang ic r" "moved st w st1" by blast
  then have "take (length (ahead st) - length (ahead st1)) (ahead st) = w"
    by (simp add: moved_def)
  with st' w show ?case by auto
qed (auto simp: step_atom_iff split: if_splits)

lemma search_result:
  "search ic r b s = Some (b0, st') \<Longrightarrow> \<exists>b1 s1. st' \<in> set (ms ic r (b1, s1, None)) \<and> rev b1 @ s1 = rev b @ s \<and> b0 = b1"
proof (induction s arbitrary: b)
  case Nil
  then show ?case by (auto split: list.splits)
next
  case (Cons c s)
  show ?case
  proof (cases "ms ic r (b, c # s, None)")
    case Nil
    with Cons.prems have "search ic r (c # b) s = Some (b0, st')" by simp
    from Cons.IH[OF this] show ?thesis by auto
  next
    case (Cons x xs)
    with Cons.prems show ?thesis by force
  qed
qed

lemma match1_capture:
  assumes "match1 ic r s = Some g"
  shows "\<exists>body \<in> groups r. g \<in> lang ic body"
proof -
  from assms obtain b0 st' where s: "search ic r [] s = Some (b0, st')" and g: "snd (snd st') = Some g"
    by (auto simp: match1_def split: option.splits)
  from search_result[OF s] obtain b1 s1 where "st' \<in> set (ms ic r (b1, s1, None))" by blast
  from ms_capture[OF this] g show ?thesis by auto
qed

lemma code_char_of: "n < 256 \<Longrightarrow> code (char_of n) = n"
  by (simp add: code_def)

lemma code_lt: "code c < 256"
  by (simp add: code_def)

lemma code_canon: "code (canon c) = (if (97 \<le> code c \<and> code c \<le> 122) \<or> (224 \<le> code c \<and> code c \<le> 254 \<and> code c \<noteq> 247) then code c - 32 else code c)"
  using code_lt[of c] by (auto simp: canon_def code_char_of)

lemma code_decanon: "code (decanon c) = (if (65 \<le> code c \<and> code c \<le> 90) \<or> (192 \<le> code c \<and> code c \<le> 222 \<and> code c \<noteq> 215) then code c + 32 else code c)"
  using code_lt[of c] by (auto simp: decanon_def code_char_of)

lemma code_inj: "code a = code b \<Longrightarrow> a = b"
  by (simp add: code_def)

lemma lit_plain: "atom ic (RLit x) c \<Longrightarrow> code x < 65 \<Longrightarrow> c = x"
proof -
  assume a: "atom ic (RLit x) c" and x: "code x < 65"
  show "c = x"
  proof (cases ic)
    case False
    with a show ?thesis by simp
  next
    case True
    with a have "code (canon c) = code (canon x)" by simp
    with x have "code c = code x" by (auto simp: code_canon split: if_splits)
    then show ?thesis by (rule code_inj)
  qed
qed

lemma digit_canon: "is_digit (canon c) \<Longrightarrow> is_digit c"
  by (auto simp: is_digit_def code_canon split: if_splits)

lemma digit_decanon: "is_digit (decanon c) \<Longrightarrow> is_digit c"
  by (auto simp: is_digit_def code_decanon split: if_splits)

lemma cls_digit: "cls_has ic [Dg] c \<Longrightarrow> is_digit c"
  by (auto simp: cls_has_def dest: digit_canon digit_decanon split: if_splits)

lemma lang_atom: "is_atom r \<Longrightarrow> lang ic r = {[c] |c. atom ic r c}"
  by (cases r) auto

lemma kstar_atoms: "w \<in> kstar {[c] |c. P c} \<Longrightarrow> \<forall>c \<in> set w. P c"
proof -
  assume "w \<in> kstar {[c] |c. P c}"
  then obtain ws where w: "w = concat ws" and ws: "set ws \<subseteq> {[c] |c. P c}"
    by (auto simp: kstar_def)
  from ws have "\<forall>c \<in> set (concat ws). P c" by (induction ws) auto
  with w show ?thesis by simp
qed

lemma lang_plus_atom:
  assumes "is_atom r" and "w \<in> lang ic (RPlus r)"
  shows "w \<noteq> [] \<and> (\<forall>c \<in> set w. atom ic r c)"
proof -
  from assms obtain c v where w: "w = [c] @ v" and c: "atom ic r c" and v: "v \<in> kstar {[c] |c. atom ic r c}"
    by (auto simp: RPlus_def lang_atom)
  from kstar_atoms[OF v] w c show ?thesis by auto
qed

lemma lang_rep_upto:
  assumes "is_atom r"
  shows "w \<in> lang ic (rep_upto n r) \<Longrightarrow> length w \<le> n \<and> (\<forall>c \<in> set w. atom ic r c)"
proof (induction n arbitrary: w)
  case 0
  then show ?case by simp
next
  case (Suc n)
  from Suc.prems consider "w = []" | c v where "w = [c] @ v" "atom ic r c" "v \<in> lang ic (rep_upto n r)"
    by (auto simp: ROpt_def lang_atom[OF assms])
  then show ?case
  proof cases
    case 1
    then show ?thesis by simp
  next
    case 2
    with Suc.IH[of v] show ?thesis by auto
  qed
qed

lemma lang_rep:
  assumes "is_atom r"
  shows "m \<le> n \<Longrightarrow> w \<in> lang ic (rep m n r) \<Longrightarrow> m \<le> length w \<and> length w \<le> n \<and> (\<forall>c \<in> set w. atom ic r c)"
proof (induction m arbitrary: n w)
  case 0
  with lang_rep_upto[OF assms, of w ic n] show ?case by simp
next
  case (Suc m)
  from Suc.prems obtain c v where w: "w = [c] @ v" "atom ic r c" "v \<in> lang ic (rep m (n - 1) r)"
    by (auto simp: lang_atom[OF assms])
  from Suc.prems have "m \<le> n - 1" by simp
  from Suc.IH[OF this w(3)] w Suc.prems show ?case by auto
qed

lemma lang_doi_body:
  assumes "d \<in> lang ic (doi_body excl)"
  shows "doi_shape ic excl d"
proof -
  from assms obtain c1 c2 c3 ds c4 tok where
    d: "d = [c1] @ [c2] @ [c3] @ ds @ [c4] @ tok"
    and c: "atom ic (RLit CHR ''1'') c1" "atom ic (RLit CHR ''0'') c2" "atom ic (RLit CHR ''.'') c3"
           "atom ic (RLit CHR ''/'') c4"
    and ds: "ds \<in> lang ic (rep 4 9 (RCls [Dg]))"
    and tok: "tok \<in> lang ic (RPlus (RNCls excl))"
    unfolding doi_body_def by (auto simp del: rep.simps atom.simps)
  have cs: "c1 = CHR ''1''" "c2 = CHR ''0''" "c3 = CHR ''.''" "c4 = CHR ''/''"
    using lit_plain[OF c(1)] lit_plain[OF c(2)] lit_plain[OF c(3)] lit_plain[OF c(4)]
    by (simp_all add: code_def)
  from lang_rep[of "RCls [Dg]" 4 9 ds ic] ds
  have l: "4 \<le> length ds" "length ds \<le> 9" "\<forall>c \<in> set ds. is_digit c"
    by (auto dest: cls_digit)
  from lang_plus_atom[of "RNCls excl" tok ic] tok
  have t: "tok \<noteq> []" "\<forall>c \<in> set tok. \<not> cls_has ic excl c" by auto
  show ?thesis
    unfolding doi_shape_def
    by (rule exI[of _ ds], rule exI[of _ tok]) (use d cs l t in simp)
qed

lemma groups_str: "groups (str w) = {}"
  by (induction w) auto

lemma groups_rep_upto: "groups r = {} \<Longrightarrow> groups (rep_upto n r) = {}"
  by (induction n) (auto simp: ROpt_def)

lemma groups_rep: "groups r = {} \<Longrightarrow> groups (rep m n r) = {}"
  by (induction m arbitrary: n) (auto simp: groups_rep_upto)

lemma groups_doi_body: "groups (doi_body excl) = {}"
  unfolding doi_body_def by (simp add: groups_str groups_rep RPlus_def del: rep.simps str.simps)

lemma DOI_REGEX_capture:
  "match1 False DOI_REGEX s = Some d \<Longrightarrow>
     doi_shape False [Ws, Ch DQ, Ch SQ, Ch CHR ''<'', Ch CHR ''>'', Ch CHR ''&''] d"
proof -
  assume "match1 False DOI_REGEX s = Some d"
  from match1_capture[OF this] have "d \<in> lang False (doi_body [Ws, Ch DQ, Ch SQ, Ch CHR ''<'', Ch CHR ''>'', Ch CHR ''&''])"
    by (simp add: DOI_REGEX_def groups_doi_body)
  then show ?thesis by (rule lang_doi_body)
qed

lemma not_digit_slash: "\<not> is_digit CHR ''/''"
  by (simp add: is_digit_def code_def)

lemma doi_shape_syntax:
  assumes "doi_shape False [Ws, Ch DQ, Ch SQ, Ch CHR ''<'', Ch CHR ''>'', Ch CHR ''&''] d"
  shows "is_doi_syntax d"
proof -
  from assms obtain ds tok where d: "d = ''10.'' @ ds @ ''/'' @ tok"
    and l: "4 \<le> length ds" "length ds \<le> 9" and dg: "\<forall>c \<in> set ds. is_digit c"
    and t: "tok \<noteq> []" "\<forall>c \<in> set tok. \<not> cls_has False [Ws, Ch DQ, Ch SQ, Ch CHR ''<'', Ch CHR ''>'', Ch CHR ''&''] c"
    unfolding doi_shape_def by blast
  from dg have tw: "takeWhile is_digit (ds @ CHR ''/'' # tok) = ds"
    by (simp add: takeWhile_append2 not_digit_slash)
  from dg have dw: "dropWhile is_digit (ds @ CHR ''/'' # tok) = CHR ''/'' # tok"
    by (simp add: dropWhile_append2 not_digit_slash)
  from t(2) have "list_all token_char tok"
    by (auto simp: list_all_iff token_char_def cls_has_def)
  with d l t(1) tw dw show ?thesis
    by (simp add: is_doi_syntax_def)
qed

lemma doi_of_text_syntax: "doi_of_text v = Some d \<Longrightarrow> is_doi_syntax d"
  unfolding doi_of_text_def by (rule doi_shape_syntax, rule DOI_REGEX_capture)

lemma ld_string_items_source:
  "ld_string_items items = Some d \<Longrightarrow> \<exists>v \<in> set (key_strings (JArr items)). doi_of_text v = Some d"
  by (induction items rule: ld_string_items.induct) (auto split: option.splits)

lemma ld_keys_source:
  "ld_keys keys props = Some d \<Longrightarrow>
     \<exists>key \<in> set keys. \<exists>val. map_of props key = Some val \<and> (\<exists>v \<in> set (key_strings val). doi_of_text v = Some d)"
proof (induction keys)
  case Nil
  then show ?case by simp
next
  case (Cons key keys)
  show ?case
  proof (cases "map_of props key")
    case None
    with Cons show ?thesis by auto
  next
    case (Some val)
    show ?thesis
    proof (cases val)
      case (JStr v)
      with Some Cons show ?thesis by (auto split: option.splits)
    next
      case (JArr items)
      with Some Cons ld_string_items_source[of items d] show ?thesis
        by (fastforce split: option.splits)
    qed (use Some Cons in auto)
  qed
qed

lemma extractDOIFromLD_source:
  "(extractDOIFromLD data = Some d \<longrightarrow> (\<exists>v \<in> set (ld_candidates data). doi_of_text v = Some d))"
  "(extractDOIFromLD_items items = Some d \<longrightarrow> (\<exists>v \<in> set (ld_candidates_items items). doi_of_text v = Some d))"
proof (induction data and items rule: extractDOIFromLD_extractDOIFromLD_items.induct)
  case (2 props)
  show ?case
  proof
    assume "extractDOIFromLD (JObj props) = Some d"
    then have "ld_keys LD_KEYS props = Some d" by simp
    from ld_keys_source[OF this] obtain key val v where
      k: "key \<in> set LD_KEYS" "map_of props key = Some val" "v \<in> set (key_strings val)" "doi_of_text v = Some d"
      by blast
    then have "v \<in> set (object_strings props)"
      unfolding object_strings_def by (auto intro!: bexI[of _ key])
    with k(4) show "\<exists>v \<in> set (ld_candidates (JObj props)). doi_of_text v = Some d"
      by auto
  qed
next
  case (8 x xs)
  then show ?case by (auto split: option.splits)
qed auto

text \<open>
  Claim C10. \<open>extractDOIFromLD\<close> is a total function, defined by recursion on the
  structure of the value (it calls itself on the items of an array only), so it returns on
  every value. Its result is \<^verbatim>\<open>null\<close>, or a text of the DOI syntax that the DOI pattern
  finds in a string held under one of the keys \<^verbatim>\<open>doi\<close>, \<^verbatim>\<open>DOI\<close>, \<^verbatim>\<open>@id\<close>,
  \<^verbatim>\<open>identifier\<close>, \<^verbatim>\<open>sameAs\<close>.
\<close>

theorem extractDOIFromLD_result:
  "extractDOIFromLD data = None \<or>
   (\<exists>d. extractDOIFromLD data = Some d \<and> is_doi_syntax d \<and> (\<exists>v \<in> set (ld_candidates data). doi_of_text v = Some d))"
proof (cases "extractDOIFromLD data")
  case None
  then show ?thesis by simp
next
  case (Some d)
  from extractDOIFromLD_source(1)[of data d] Some
  obtain v where v: "v \<in> set (ld_candidates data)" "doi_of_text v = Some d" by blast
  from doi_of_text_syntax[OF v(2)] v Some show ?thesis by blast
qed

lemma ld_sample_value: "extractDOIFromLD ld_sample = Some ''10.1000/182''"
  by code_simp

text \<open>The theorem on the sample block: the DOI comes from the \<^verbatim>\<open>@id\<close> key.\<close>

theorem extractDOIFromLD_result_witness:
  "extractDOIFromLD ld_sample = Some ''10.1000/182'' \<and> is_doi_syntax ''10.1000/182''
   \<and> ld_candidates ld_sample = [''https://doi.org/10.1000/182'']"
  using extractDOIFromLD_result[of ld_sample] ld_sample_value
  by (simp add: ld_sample_def object_strings_def LD_KEYS_def)

subsection \<open>The first match\<close>

lemma ms_atom: "is_atom r \<Longrightarrow> ms ic r st = step_atom ic r st"
  by (cases r) auto

lemma mfirst_atom: "is_atom r \<Longrightarrow> atom ic r c \<Longrightarrow> mfirst ic r (b, c # s, k) (c # b, s, k)"
  by (simp add: mfirst_def ms_atom step_atom_def)

lemma ms_atom_stops: "is_atom r \<Longrightarrow> stops ic r s \<Longrightarrow> ms ic r (b, s, k) = []"
  by (cases s) (auto simp: ms_atom step_atom_def stops_def)

lemma mfirst_eps: "mfirst ic REps st st"
  by (simp add: mfirst_def)

lemma mfirst_seq: "mfirst ic r1 st st1 \<Longrightarrow> mfirst ic r2 st1 st2 \<Longrightarrow> mfirst ic (RSeq r1 r2) st st2"
  by (auto simp: mfirst_def)

lemma mfirst_alt1: "mfirst ic r1 st st' \<Longrightarrow> mfirst ic (RAlt r1 r2) st st'"
  by (auto simp: mfirst_def)

lemma mfirst_alt2: "ms ic r1 st = [] \<Longrightarrow> mfirst ic r2 st st' \<Longrightarrow> mfirst ic (RAlt r1 r2) st st'"
  by (auto simp: mfirst_def)

lemma mfirst_str: "mfirst False (str w) (b, w @ s, k) (rev w @ b, s, k)"
proof (induction w arbitrary: b)
  case Nil
  show ?case by (simp add: mfirst_eps)
next
  case (Cons c w)
  have "mfirst False (RLit c) (b, c # (w @ s), k) (c # b, w @ s, k)"
    by (rule mfirst_atom) simp_all
  from mfirst_seq[OF this Cons[of "c # b"]] show ?case by simp
qed

lemma mfirst_star:
  assumes "is_atom r" and "stops ic r s"
  shows "\<forall>c \<in> set w. atom ic r c \<Longrightarrow> mfirst ic (RStar r) (b, w @ s, k) (rev w @ b, s, k)"
proof (induction w arbitrary: b)
  case Nil
  from ms_atom_stops[OF assms, of b k] show ?case
    by (simp add: mfirst_def ms.simps(8))
next
  case (Cons c w)
  from Cons.prems have c: "atom ic r c" and w: "\<forall>c \<in> set w. atom ic r c" by auto
  from Cons.IH[OF w, of "c # b"] obtain more where
    m: "ms ic (RStar r) (c # b, w @ s, k) = (rev w @ c # b, s, k) # more"
    by (auto simp: mfirst_def)
  have "ms ic r (b, c # w @ s, k) = [(c # b, w @ s, k)]"
    using assms(1) c by (simp add: ms_atom step_atom_def)
  with m show ?case
    by (simp add: mfirst_def ms.simps(8)[of ic r "(b, c # w @ s, k)"] ahead_def)
qed

lemma mfirst_plus:
  assumes "is_atom r" and "stops ic r s" and "\<forall>c \<in> set w. atom ic r c" and "w \<noteq> []"
  shows "mfirst ic (RPlus r) (b, w @ s, k) (rev w @ b, s, k)"
proof -
  from assms(4) obtain c w' where w: "w = c # w'" by (cases w) auto
  with assms(3) have c: "atom ic r c" and w': "\<forall>c \<in> set w'. atom ic r c" by auto
  have a: "mfirst ic r (b, c # (w' @ s), k) (c # b, w' @ s, k)"
    by (rule mfirst_atom[OF assms(1) c])
  have "mfirst ic (RStar r) (c # b, w' @ s, k) (rev w' @ c # b, s, k)"
    by (rule mfirst_star[OF assms(1,2) w'])
  from mfirst_seq[OF a this] show ?thesis by (simp add: w RPlus_def)
qed

lemma mfirst_rep_upto:
  assumes "is_atom r" and "stops ic r s"
  shows "\<forall>c \<in> set w. atom ic r c \<Longrightarrow> length w \<le> n \<Longrightarrow> mfirst ic (rep_upto n r) (b, w @ s, k) (rev w @ b, s, k)"
proof (induction n arbitrary: w b)
  case 0
  then show ?case by (simp add: mfirst_eps)
next
  case (Suc n)
  show ?case
  proof (cases w)
    case Nil
    have "ms ic (RSeq r (rep_upto n r)) (b, s, k) = []"
      using ms_atom_stops[OF assms, of b k] by simp
    from mfirst_alt2[OF this mfirst_eps] Nil show ?thesis by (simp add: ROpt_def)
  next
    case (Cons c w')
    with Suc.prems have c: "atom ic r c" and w': "\<forall>c \<in> set w'. atom ic r c" "length w' \<le> n" by auto
    have a: "mfirst ic r (b, c # (w' @ s), k) (c # b, w' @ s, k)"
      by (rule mfirst_atom[OF assms(1) c])
    from mfirst_seq[OF a Suc.IH[OF w', of "c # b"]]
    show ?thesis using Cons by (simp add: ROpt_def mfirst_alt1)
  qed
qed

lemma mfirst_rep:
  assumes "is_atom r" and "stops ic r s"
  shows "\<forall>c \<in> set w. atom ic r c \<Longrightarrow> m \<le> length w \<Longrightarrow> length w \<le> n
         \<Longrightarrow> mfirst ic (rep m n r) (b, w @ s, k) (rev w @ b, s, k)"
proof (induction m arbitrary: w b n)
  case 0
  with mfirst_rep_upto[OF assms, of w n b k] show ?case by simp
next
  case (Suc m)
  from Suc.prems obtain c w' where w: "w = c # w'" by (cases w) auto
  with Suc.prems have c: "atom ic r c" and w': "\<forall>c \<in> set w'. atom ic r c" "m \<le> length w'" "length w' \<le> n - 1"
    by auto
  have a: "mfirst ic r (b, c # (w' @ s), k) (c # b, w' @ s, k)"
    by (rule mfirst_atom[OF assms(1) c])
  from mfirst_seq[OF a Suc.IH[OF w', of "c # b"]]
  show ?case by (simp add: w)
qed

lemma mfirst_group:
  "mfirst ic r (b, s, k) (b', s', k') \<Longrightarrow>
   mfirst ic (RGroup r) (b, s, k) (b', s', Some (take (length s - length s') s))"
  by (auto simp: mfirst_def ahead_def)

lemma mfirst_wordb: "at_wordb b s \<Longrightarrow> mfirst ic RWordB (b, s, k) (b, s, k)"
  by (simp add: mfirst_def ahead_def)


lemma mfirst_bol: "mfirst ic RBol ([], s, k) ([], s, k)"
  by (simp add: mfirst_def)

lemma search_first: "mfirst ic r (b, s, None) st' \<Longrightarrow> search ic r b s = Some (b, st')"
  by (cases s) (auto simp: mfirst_def)

lemma search_skip: "ms ic r (b, c # s, None) = [] \<Longrightarrow> search ic r b (c # s) = search ic r (c # b) s"
  by simp

lemma search_bol_none: "b \<noteq> [] \<Longrightarrow> search ic (RSeq RBol r) b s = None"
  by (induction s arbitrary: b) auto

lemma detectDOI_meta: "meta_tier metaSelectors (metas p) = Some d \<Longrightarrow> detectDOI p = Some d"
  by (simp add: detectDOI_def)

section \<open>Properties of the cleaned identifier\<close>

lemma doi_shape_prefix:
  assumes "doi_shape ic excl d"
  shows "\<exists>ds tok. d = ''10.'' @ ds @ ''/'' @ tok \<and> 4 \<le> length ds \<and> length ds \<le> 9 \<and> (\<forall>c \<in> set ds. is_digit c)"
  using assms unfolding doi_shape_def by blast

lemma prefix_ok_intro:
  assumes "4 \<le> length ds" "length ds \<le> 9" "\<forall>c \<in> set ds. is_digit c"
  shows "doi_prefix_ok (''10.'' @ ds @ ''/'' @ u)"
proof -
  from assms(3) have "takeWhile is_digit (ds @ CHR ''/'' # u) = ds"
    by (simp add: takeWhile_append2 not_digit_slash)
  moreover from assms(3) have "dropWhile is_digit (ds @ CHR ''/'' # u) = CHR ''/'' # u"
    by (simp add: dropWhile_append2 not_digit_slash)
  ultimately show ?thesis using assms(1,2) by (simp add: doi_prefix_ok_def)
qed

lemma cleanDOI_cut: "\<exists>w. doi = cleanDOI doi @ w \<and> (\<forall>c \<in> set w. trailing_punct c)"
proof (cases "search False trailing_punct_re [] doi")
  case None
  then show ?thesis by (simp add: cleanDOI_def replace_first_def)
next
  case (Some res)
  obtain b0 st' where res: "res = (b0, st')" by (cases res)
  from search_result[of False trailing_punct_re "[]" doi b0 st'] Some res
  obtain s1 where m: "st' \<in> set (ms False trailing_punct_re (b0, s1, None))" and d: "rev b0 @ s1 = doi"
    by auto
  let ?cls = "RCls [Ch CHR ''.'', Ch CHR '','', Ch CHR '';'', Ch CHR '')'', Ch CHR '']'']"
  from m have p: "st' \<in> set (ms False (RPlus ?cls) (b0, s1, None))" and e: "ahead st' = []"
    by (auto simp: trailing_punct_re_def split: if_splits)
  from ms_sound[OF p] obtain w where w: "w \<in> lang False (RPlus ?cls)" "moved (b0, s1, None) w st'" by blast
  from lang_plus_atom[of ?cls w False] w(1) have "\<forall>c \<in> set w. trailing_punct c"
    by (auto simp: cls_has_def trailing_punct_def)
  moreover from w(2) e have "s1 = w" by (simp add: moved_def ahead_def)
  moreover from Some res e have "cleanDOI doi = rev b0" by (simp add: cleanDOI_def replace_first_def)
  ultimately show ?thesis using d by auto
qed

lemma cleanDOI_keeps_prefix:
  assumes "doi_shape ic excl doi"
  shows "doi_prefix_ok (cleanDOI doi)"
proof -
  from doi_shape_prefix[OF assms] obtain ds tok where
    d: "doi = ''10.'' @ ds @ ''/'' @ tok" and l: "4 \<le> length ds" "length ds \<le> 9" "\<forall>c \<in> set ds. is_digit c"
    by blast
  from cleanDOI_cut[of doi] obtain w where w: "doi = cleanDOI doi @ w" "\<forall>c \<in> set w. trailing_punct c" by blast
  let ?x = "''10.'' @ ds @ ''/''"
  from d w(1) have "?x @ tok = cleanDOI doi @ w" by simp
  then obtain u where "(?x = cleanDOI doi @ u \<and> u @ tok = w) \<or> (?x @ u = cleanDOI doi \<and> tok = u @ w)"
    by (auto simp only: append_eq_append_conv2)
  then show ?thesis
  proof
    assume a: "?x = cleanDOI doi @ u \<and> u @ tok = w"
    show ?thesis
    proof (cases "u = []")
      case True
      with a have "cleanDOI doi = ''10.'' @ ds @ ''/'' @ []" by simp
      with prefix_ok_intro[OF l, of "[]"] show ?thesis by simp
    next
      case False
      with a have "last ?x = last u" by (metis last_appendR)
      then have "last u = CHR ''/''" by simp
      with False have "CHR ''/'' \<in> set u" by (metis last_in_set)
      with a have "CHR ''/'' \<in> set w" by auto
      with w(2) have "trailing_punct CHR ''/''" by blast
      then show ?thesis by (simp add: trailing_punct_def)
    qed
  next
    assume "?x @ u = cleanDOI doi \<and> tok = u @ w"
    then have "cleanDOI doi = ''10.'' @ ds @ ''/'' @ u" by simp
    with prefix_ok_intro[OF l, of u] show ?thesis by simp
  qed
qed

lemma doi_body_capture:
  "match1 ic r s = Some d \<Longrightarrow> groups r = {doi_body excl} \<Longrightarrow> doi_shape ic excl d"
  using match1_capture[of ic r s d] lang_doi_body[of d ic excl] by auto

lemma groups_alts_str: "groups (alts (map str ws)) = {}"
  by (induction ws rule: induct_list012) (auto simp: groups_str simp del: str.simps)

lemma first_match_shape:
  "first_match ic r ts = Some d \<Longrightarrow> groups r = {doi_body excl} \<Longrightarrow> doi_shape ic excl d"
  by (induction ts) (auto split: option.splits dest: doi_body_capture)

lemma meta_tier_shape:
  "meta_tier sels els = Some d \<Longrightarrow>
     doi_shape False [Ws, Ch DQ, Ch SQ, Ch CHR ''<'', Ch CHR ''>'', Ch CHR ''&''] d"
  by (induction sels) (auto split: option.splits simp: doi_of_text_def dest: DOI_REGEX_capture)

lemma ld_tier_shape:
  "ld_tier bs = Some d \<Longrightarrow>
     doi_shape False [Ws, Ch DQ, Ch SQ, Ch CHR ''<'', Ch CHR ''>'', Ch CHR ''&''] d"
proof (induction bs rule: ld_tier.induct)
  case (3 data bs)
  show ?case
  proof (cases "extractDOIFromLD data")
    case None
    with 3 show ?thesis by simp
  next
    case (Some d')
    with "3.prems" have "d' = d" by simp
    with extractDOIFromLD_source(1)[of data d] Some obtain v where "doi_of_text v = Some d" by blast
    then show ?thesis by (auto simp: doi_of_text_def dest: DOI_REGEX_capture)
  qed
qed auto

lemma groups_url: "groups doi_org_url_re = {doi_body [Ws, Ch CHR ''?'', Ch CHR ''#'']}"
  by (simp add: doi_org_url_re_def groups_str groups_doi_body ROpt_def del: str.simps)

lemma groups_path: "groups url_path_re = {doi_body [Ws, Ch CHR ''?'', Ch CHR ''#'']}"
  using groups_alts_str[of "[''doi'', ''article'', ''abs'', ''full'', ''pdf'']"]
  by (simp add: url_path_re_def groups_str groups_doi_body ROpt_def del: str.simps)

lemma groups_link: "groups doi_link_re = {doi_body [Ws, Ch CHR ''?'', Ch CHR ''#'', Ch DQ, Ch SQ]}"
  by (simp add: doi_link_re_def groups_str groups_doi_body ROpt_def del: str.simps)

lemma groups_script: "groups script_doi_re = {doi_body [Ch DQ, Ch SQ]}"
  by (simp add: script_doi_re_def groups_str groups_doi_body ROpt_def del: str.simps)

lemma groups_DOI: "groups DOI_REGEX = {doi_body [Ws, Ch DQ, Ch SQ, Ch CHR ''<'', Ch CHR ''>'', Ch CHR ''&'']}"
  by (simp add: DOI_REGEX_def groups_doi_body)

lemma detectDOI_shape: "detectDOI p = Some d \<Longrightarrow> \<exists>ic excl. doi_shape ic excl d"
  unfolding detectDOI_def
  by (auto split: option.splits
      dest: meta_tier_shape ld_tier_shape doi_body_capture[OF _ groups_url] doi_body_capture[OF _ groups_path]
        first_match_shape[OF _ groups_link] first_match_shape[OF _ groups_script] first_match_shape[OF _ groups_DOI])

lemma prefix_ok_nonempty: "doi_prefix_ok d \<Longrightarrow> d \<noteq> []"
  by (auto simp: doi_prefix_ok_def)

section \<open>Properties of the reference found at a mirror\<close>







































section \<open>Properties of the detected identifier\<close>

subsection \<open>Where a match of the DOI pattern ends\<close>

lemma at_wordb_starts: "at_wordb b s = (starts_word b \<noteq> starts_word s)"
  by (simp add: at_wordb_def starts_word_def)

lemma concat_map_single: "concat (map (\<lambda>z. if P z then [z] else []) xs) = filter P xs"
  by (induction xs) auto

lemma ms_seq_eps: "ms ic (RSeq r REps) st = ms ic r st"
proof -
  have "ms ic REps = (\<lambda>z. [z])" by (rule ext) simp
  then show ?thesis by (simp del: ms.simps(5))
qed

lemma ms_seq_wordb: "ms ic (RSeq r (RSeq RWordB REps)) st = filter at_boundary (ms ic r st)"
proof -
  have "ms ic (RSeq RWordB REps) = (\<lambda>z. if at_boundary z then [z] else [])"
    by (rule ext) (simp add: at_boundary_def)
  then show ?thesis by (simp add: concat_map_single del: ms.simps(5,13))
qed

lemma ms_wordb_seq: "ms ic (RSeq RWordB r) st = (if at_boundary st then ms ic r st else [])"
  by (simp add: at_boundary_def)

lemma concat_head: "concat xss = y # ys \<Longrightarrow> \<exists>xs \<in> set xss. \<exists>zs. xs = y # zs"
  by (induction xss) (auto simp: append_eq_Cons_conv)

lemma seq_filter_first:
  assumes "filter P (ms ic (RSeq r1 r2) st) = y # ys"
  shows "\<exists>st1 \<in> set (ms ic r1 st). \<exists>zs. filter P (ms ic r2 st1) = y # zs"
proof -
  from assms have "concat (map (\<lambda>st1. filter P (ms ic r2 st1)) (ms ic r1 st)) = y # ys"
    by (simp add: filter_concat comp_def)
  from concat_head[OF this] show ?thesis by auto
qed

lemma star_keeps_start: "st \<in> set (ms ic (RStar r) st)"
  using ms_star_iff[of st ic r st] by blast

lemma star_boundary_first:
  assumes "is_atom A" and "\<And>c. is_word c \<Longrightarrow> atom ic A c"
  shows "(\<forall>y ys. filter at_boundary (ms ic (RStar A) (b, s, k)) = y # ys \<longrightarrow>
            (y = (b, s, k) \<and> \<not> starts_word s) \<or> (starts_word (fst y) \<and> length (ahead y) < length s))
       \<and> (starts_word s \<longrightarrow> filter at_boundary (ms ic (RStar A) (b, s, k)) \<noteq> [])"
proof (induction s arbitrary: b)
  case Nil
  have "ms ic (RStar A) (b, [], k) = [(b, [], k)]"
    using assms(1) by (simp add: ms.simps(8) ms_atom step_atom_def)
  then show ?case by (auto simp: starts_word_def split: if_splits)
next
  case (Cons c s)
  show ?case
  proof (cases "atom ic A c")
    case False
    then have "ms ic (RStar A) (b, c # s, k) = [(b, c # s, k)]"
      using assms(1) by (simp add: ms.simps(8) ms_atom step_atom_def)
    moreover from False assms(2) have "\<not> starts_word (c # s)" by (auto simp: starts_word_def)
    ultimately show ?thesis by (auto split: if_splits)
  next
    case True
    let ?in = "ms ic (RStar A) (c # b, s, k)"
    have st: "ms ic (RStar A) (b, c # s, k) = ?in @ [(b, c # s, k)]"
      using assms(1) True by (simp add: ms.simps(8)[of ic A "(b, c # s, k)"] ms_atom step_atom_def ahead_def)
    have ih1: "filter at_boundary ?in = y # ys \<Longrightarrow>
                 (y = (c # b, s, k) \<and> \<not> starts_word s) \<or> (starts_word (fst y) \<and> length (ahead y) < length s)" for y ys
      using Cons.IH[of "c # b"] by blast
    have ih2: "starts_word s \<Longrightarrow> filter at_boundary ?in \<noteq> []"
      using Cons.IH[of "c # b"] by blast
    have ne: "filter at_boundary ?in \<noteq> []" if w: "is_word c"
    proof (cases "starts_word s")
      case True
      then show ?thesis by (rule ih2)
    next
      case False
      with w have "at_boundary (c # b, s, k)"
        by (simp add: at_boundary_def ahead_def at_wordb_starts starts_word_def)
      with star_keeps_start[of "(c # b, s, k)" ic A] show ?thesis
        by (auto simp: filter_empty_conv)
    qed
    have p2: "starts_word (c # s) \<longrightarrow> filter at_boundary (ms ic (RStar A) (b, c # s, k)) \<noteq> []"
      using ne st by (simp add: starts_word_def)
    have p1: "(y = (b, c # s, k) \<and> \<not> starts_word (c # s)) \<or> (starts_word (fst y) \<and> length (ahead y) < length (c # s))"
      if f: "filter at_boundary (ms ic (RStar A) (b, c # s, k)) = y # ys" for y ys
    proof (cases "filter at_boundary ?in")
      case Nil
      with f st have "y = (b, c # s, k)" by (auto split: if_splits)
      moreover from Nil ne have "\<not> is_word c" by blast
      ultimately show ?thesis by (simp add: starts_word_def)
    next
      case (Cons y' ys')
      with f st have y: "y = y'" by simp
      from ih1[OF Cons] show ?thesis
      proof
        assume a: "y' = (c # b, s, k) \<and> \<not> starts_word s"
        have "y' \<in> set (filter at_boundary ?in)" using Cons by simp
        then have "at_boundary y'" by simp
        with a have "is_word c"
          by (simp add: at_boundary_def ahead_def at_wordb_starts starts_word_def)
        with a y show ?thesis by (simp add: starts_word_def ahead_def)
      next
        assume "starts_word (fst y') \<and> length (ahead y') < length s"
        with y show ?thesis by simp
      qed
    qed
    from p1 p2 show ?thesis by blast
  qed
qed

lemma plus_boundary_first:
  assumes "is_atom A" and "\<And>c. is_word c \<Longrightarrow> atom ic A c"
    and "filter at_boundary (ms ic (RPlus A) st) = y # ys"
  shows "starts_word (fst y)"
proof -
  from seq_filter_first[OF assms(3)[unfolded RPlus_def]] obtain st1 zs where
    s1: "st1 \<in> set (ms ic A st)" and f: "filter at_boundary (ms ic (RStar A) st1) = y # zs" by blast
  obtain b s k where st1: "st1 = (b, s, k)" by (cases st1)
  from s1 assms(1) obtain c where b: "fst st1 = c # fst st"
    by (auto simp: ms_atom step_atom_iff)
  from star_boundary_first[OF assms(1,2), of b s k] f st1
  have "(y = (b, s, k) \<and> \<not> starts_word s) \<or> starts_word (fst y)" by blast
  then show ?thesis
  proof
    assume a: "y = (b, s, k) \<and> \<not> starts_word s"
    have "y \<in> set (filter at_boundary (ms ic (RStar A) st1))" using f by simp
    then have "at_boundary y" by simp
    with a show ?thesis by (simp add: at_boundary_def ahead_def at_wordb_starts)
  qed
qed

lemma word_is_token: "is_word c \<Longrightarrow> atom False (RNCls [Ws, Ch DQ, Ch SQ, Ch CHR ''<'', Ch CHR ''>'', Ch CHR ''&'']) c"
  by (auto simp: cls_has_def is_word_def is_space_def is_digit_def code_def)

lemma search_result_first:
  "search ic r b s = Some (b0, st') \<Longrightarrow> \<exists>s1 others. ms ic r (b0, s1, None) = st' # others \<and> rev b0 @ s1 = rev b @ s"
proof (induction s arbitrary: b)
  case Nil
  then show ?case by (auto split: list.splits)
next
  case (Cons c s)
  show ?case
  proof (cases "ms ic r (b, c # s, None)")
    case Nil
    with Cons.prems have "search ic r (c # b) s = Some (b0, st')" by simp
    from Cons.IH[OF this] show ?thesis by auto
  next
    case (Cons x xs)
    with Cons.prems show ?thesis by auto
  qed
qed

lemma DOI_REGEX_first:
  assumes "ms False DOI_REGEX st0 = st' # others"
  shows "\<exists>d. snd (snd st') = Some d \<and> d \<noteq> [] \<and> is_word (last d)"
proof -
  let ?A = "RNCls [Ws, Ch DQ, Ch SQ, Ch CHR ''<'', Ch CHR ''>'', Ch CHR ''&'']"
  let ?body = "doi_body [Ws, Ch DQ, Ch SQ, Ch CHR ''<'', Ch CHR ''>'', Ch CHR ''&'']"
  let ?f = "\<lambda>z. (fst z, ahead z, Some (take (length (ahead st0) - length (ahead z)) (ahead st0)))"
  have g: "ms False (RGroup ?body) st0 = map ?f (ms False ?body st0)" by simp
  have fb: "at_boundary (?f z) = at_boundary z" for z
    by (simp add: at_boundary_def ahead_def)
  from assms have "(if at_boundary st0 then filter at_boundary (ms False (RGroup ?body) st0) else []) = st' # others"
    unfolding DOI_REGEX_def seqs.simps by (simp only: ms_wordb_seq ms_seq_wordb)
  then have "filter at_boundary (ms False (RGroup ?body) st0) = st' # others"
    by (simp split: if_splits del: ms.simps)
  then have "map ?f (filter at_boundary (ms False ?body st0)) = st' # others"
    by (simp only: g filter_map comp_def fb)
  then obtain y ys where y: "filter at_boundary (ms False ?body st0) = y # ys" and st': "st' = ?f y"
    by (cases "filter at_boundary (ms False ?body st0)") auto
  have "y \<in> set (filter at_boundary (ms False ?body st0))" by (simp only: y list.set_intros)
  then have yin: "y \<in> set (ms False ?body st0)" by simp
  from y[unfolded doi_body_def seqs.simps] obtain p1 z1 where
    "filter at_boundary (ms False (RSeq (rep 4 9 (RCls [Dg])) (RSeq (RLit CHR ''/'') (RSeq (RPlus ?A) REps))) p1) = y # z1"
    using seq_filter_first by blast
  then obtain p2 z2 where
    "filter at_boundary (ms False (RSeq (RLit CHR ''/'') (RSeq (RPlus ?A) REps)) p2) = y # z2"
    using seq_filter_first by blast
  then obtain p3 z3 where "filter at_boundary (ms False (RSeq (RPlus ?A) REps) p3) = y # z3"
    using seq_filter_first by blast
  then have "filter at_boundary (ms False (RPlus ?A) p3) = y # z3"
    by (simp only: ms_seq_eps)
  from plus_boundary_first[OF _ _ this] have top: "starts_word (fst y)"
    using word_is_token by simp
  from ms_sound[OF yin] obtain w where w: "w \<in> lang False ?body" "moved st0 w y" by blast
  from lang_doi_body[OF w(1)] have ne: "w \<noteq> []" by (auto simp: doi_shape_def)
  from w(2) have cap: "take (length (ahead st0) - length (ahead y)) (ahead st0) = w"
    and b: "fst y = rev w @ fst st0" by (simp_all add: moved_def)
  from ne b have "hd (fst y) = last w" by (simp add: hd_rev)
  moreover from ne b have "fst y \<noteq> []" by simp
  ultimately have "is_word (last w)" using top by (cases "fst y") (simp_all add: starts_word_def)
  with st' cap ne show ?thesis by simp
qed

lemma DOI_REGEX_ends_word: "match1 False DOI_REGEX s = Some d \<Longrightarrow> d \<noteq> [] \<and> is_word (last d)"
proof -
  assume m: "match1 False DOI_REGEX s = Some d"
  then obtain b0 st' where s: "search False DOI_REGEX [] s = Some (b0, st')" and c: "snd (snd st') = Some d"
    by (auto simp: match1_def split: option.splits)
  from search_result_first[OF s] obtain s1 others where "ms False DOI_REGEX (b0, s1, None) = st' # others" by blast
  from DOI_REGEX_first[OF this] c show ?thesis by simp
qed

subsection \<open>The cleaned identifier, tier by tier\<close>

lemma punct_not_word: "trailing_punct c \<Longrightarrow> \<not> is_word c"
  by (auto simp: trailing_punct_def is_word_def is_digit_def code_def)

lemma cleanDOI_word_end:
  assumes "d \<noteq> []" and "is_word (last d)"
  shows "cleanDOI d = d"
proof -
  from cleanDOI_cut[of d] obtain w where w: "d = cleanDOI d @ w" "\<forall>c \<in> set w. trailing_punct c" by blast
  have "w = []"
  proof (rule ccontr)
    assume n: "w \<noteq> []"
    with w(1) have "last d = last w" by (metis last_appendR)
    with n w(2) have "trailing_punct (last d)" by (metis last_in_set)
    with assms(2) show False by (auto dest: punct_not_word)
  qed
  with w(1) show ?thesis by simp
qed

lemma doi_of_text_full: "doi_of_text v = Some d \<Longrightarrow> is_doi_syntax d \<and> cleanDOI d = d"
proof -
  assume a: "doi_of_text v = Some d"
  then have "d \<noteq> [] \<and> is_word (last d)"
    unfolding doi_of_text_def by (rule DOI_REGEX_ends_word)
  with doi_of_text_syntax[OF a] show ?thesis by (simp add: cleanDOI_word_end)
qed

lemma meta_tier_full: "meta_tier sels els = Some d \<Longrightarrow> is_doi_syntax d \<and> cleanDOI d = d"
  by (induction sels) (auto split: option.splits dest: doi_of_text_full)

lemma ld_tier_full: "ld_tier bs = Some d \<Longrightarrow> is_doi_syntax d \<and> cleanDOI d = d"
proof (induction bs rule: ld_tier.induct)
  case (3 data bs)
  show ?case
  proof (cases "extractDOIFromLD data")
    case None
    with 3 show ?thesis by simp
  next
    case (Some d')
    with "3.prems" have "d' = d" by simp
    with extractDOIFromLD_source(1)[of data d] Some obtain v where "doi_of_text v = Some d" by blast
    then show ?thesis by (rule doi_of_text_full)
  qed
qed auto

lemma container_tier_full: "first_match False DOI_REGEX ts = Some d \<Longrightarrow> is_doi_syntax d \<and> cleanDOI d = d"
proof (induction ts)
  case Nil
  then show ?case by simp
next
  case (Cons t ts)
  show ?case
  proof (cases "match1 False DOI_REGEX t")
    case None
    with Cons show ?thesis by simp
  next
    case (Some d')
    with Cons.prems have m: "match1 False DOI_REGEX t = Some d" by simp
    from DOI_REGEX_ends_word[OF m] doi_shape_syntax[OF DOI_REGEX_capture[OF m]]
    show ?thesis by (simp add: cleanDOI_word_end)
  qed
qed

text \<open>
  Claim C2, as amended. \<open>init\<close> attaches a control exactly when the page is not ignored
  and the detector produces a candidate (otherwise it leaves the page as it is); the identifier the control carries is the
  candidate without its trailing punctuation, and it still begins with \<^verbatim>\<open>10.\<close>, four to
  nine digits and a slash. A candidate of the meta tag tier, the structured data tier or
  the container text tier is a match of the DOI pattern, which ends in a word character:
  cleaning leaves it as it is, and it has the DOI syntax. A candidate of the address,
  link or script tier may end in punctuation; the cleaned text is not matched against the
  DOI syntax again, what follows the slash may be empty, and the control is attached all
  the same (the pipeline halts only for an empty text, which never occurs).
\<close>

theorem cleaned_identifier_validity:
  "(init p None = None \<or>
      (\<exists>doi w. detectDOI p = Some doi \<and> init p None = Some (cleanDOI doi) \<and> doi_prefix_ok (cleanDOI doi)
          \<and> doi = cleanDOI doi @ w \<and> list_all trailing_punct w))
   \<and> (\<not> shouldIgnorePage p \<and> detectDOI p = Some doi' \<longrightarrow> init p btn = injectButton (cleanDOI doi') btn)
   \<and> (shouldIgnorePage p \<or> detectDOI p = None \<longrightarrow> init p btn = btn)
   \<and> (detectDOI p = Some doi' \<and>
        (meta_tier metaSelectors (metas p) = Some doi' \<or> ld_tier (ld_json p) = Some doi'
           \<or> first_match False DOI_REGEX (containers p) = Some doi')
       \<longrightarrow> cleanDOI doi' = doi' \<and> is_doi_syntax doi')"
proof -
  have k: "detectDOI p = Some x \<Longrightarrow> x \<noteq> [] \<and> cleanDOI x \<noteq> [] \<and> doi_prefix_ok (cleanDOI x)" for x
  proof -
    assume "detectDOI p = Some x"
    from detectDOI_shape[OF this] obtain ic excl where s: "doi_shape ic excl x" by blast
    from cleanDOI_keeps_prefix[OF s] have c: "doi_prefix_ok (cleanDOI x)" .
    from s have "x \<noteq> []" by (auto simp: doi_shape_def)
    with c prefix_ok_nonempty[OF c] show ?thesis by simp
  qed
  have cut: "\<exists>w. x = cleanDOI x @ w \<and> list_all trailing_punct w" for x
    using cleanDOI_cut[of x] by (simp add: list_all_iff)
  have a: "init p None = None \<or>
      (\<exists>doi w. detectDOI p = Some doi \<and> init p None = Some (cleanDOI doi) \<and> doi_prefix_ok (cleanDOI doi)
          \<and> doi = cleanDOI doi @ w \<and> list_all trailing_punct w)"
  proof (cases "detectDOI p")
    case None
    then show ?thesis by (simp add: init_def)
  next
    case (Some x)
    from cut[of x] obtain w where w: "x = cleanDOI x @ w" "list_all trailing_punct w" by blast
    show ?thesis
    proof (cases "shouldIgnorePage p")
      case True
      then show ?thesis by (simp add: init_def)
    next
      case False
      with Some k[OF Some] have "init p None = Some (cleanDOI x)"
        by (simp add: init_def injectButton_def Let_def)
      with Some k[OF Some] w show ?thesis by blast
    qed
  qed
  have b: "\<not> shouldIgnorePage p \<and> detectDOI p = Some doi' \<longrightarrow> init p btn = injectButton (cleanDOI doi') btn"
    using k[of doi'] by (auto simp: init_def Let_def)
  have c: "detectDOI p = Some doi' \<and>
        (meta_tier metaSelectors (metas p) = Some doi' \<or> ld_tier (ld_json p) = Some doi'
           \<or> first_match False DOI_REGEX (containers p) = Some doi')
       \<longrightarrow> cleanDOI doi' = doi' \<and> is_doi_syntax doi'"
    using meta_tier_full[of metaSelectors "metas p" doi'] ld_tier_full[of "ld_json p" doi']
      container_tier_full[of "containers p" doi'] by blast
  have d: "shouldIgnorePage p \<or> detectDOI p = None \<longrightarrow> init p btn = btn"
    by (auto simp: init_def)
  from a b c d show ?thesis by blast
qed

lemma page_article_candidate:
  "\<not> shouldIgnorePage page_article
   \<and> meta_tier metaSelectors (metas page_article) = Some ''10.1038/nature12373''
   \<and> detectDOI page_article = Some ''10.1038/nature12373''"
  by code_simp

text \<open>The theorem on the article page, where the meta tag tier finds the identifier.\<close>

theorem cleaned_identifier_validity_witness:
  "\<not> shouldIgnorePage page_article
   \<and> meta_tier metaSelectors (metas page_article) = Some ''10.1038/nature12373''
   \<and> detectDOI page_article = Some ''10.1038/nature12373''
   \<and> init page_article None = Some ''10.1038/nature12373''
   \<and> cleanDOI ''10.1038/nature12373'' = ''10.1038/nature12373''
   \<and> is_doi_syntax ''10.1038/nature12373'' \<and> doi_prefix_ok ''10.1038/nature12373''"
  using cleaned_identifier_validity[of page_article "''10.1038/nature12373''" None] page_article_candidate
  by (auto simp: injectButton_def)

text \<open>
  Claim C2 as stated fails on the resolver page: the address tier gives the candidate
  \<^verbatim>\<open>10.1234/,\<close>, cleaning leaves \<^verbatim>\<open>10.1234/\<close>, which has no token and in which the DOI pattern
  finds nothing, and the control is attached with it.
\<close>

theorem cleaned_identifier_not_doi:
  "\<not> shouldIgnorePage page_doi_org
   \<and> detectDOI page_doi_org = Some ''10.1234/,'' \<and> cleanDOI ''10.1234/,'' = ''10.1234/''
   \<and> \<not> is_doi_syntax ''10.1234/'' \<and> match1 False DOI_REGEX ''10.1234/'' = None
   \<and> init page_doi_org None = Some ''10.1234/''"
  by code_simp

subsection \<open>The DOI pattern on an identifier inside a longer text\<close>

lemma ms_star_atom:
  "is_atom A \<Longrightarrow> atom ic A c \<Longrightarrow>
     ms ic (RStar A) (b, c # s, k) = ms ic (RStar A) (c # b, s, k) @ [(b, c # s, k)]"
  by (simp add: ms.simps(8)[of ic A "(b, c # s, k)"] ms_atom step_atom_def ahead_def)

lemma ms_star_stop: "is_atom A \<Longrightarrow> stops ic A s \<Longrightarrow> ms ic (RStar A) (b, s, k) = [(b, s, k)]"
  using ms_atom_stops[of A ic s b k] by (simp add: ms.simps(8)[of ic A "(b, s, k)"])

lemma star_tail_boundary:
  assumes "is_atom A" and "stops ic A trail" and "\<not> starts_word trail"
  shows "\<forall>c \<in> set v. atom ic A c \<and> \<not> is_word c \<Longrightarrow>
     filter at_boundary (ms ic (RStar A) (b, v @ trail, k)) = (if starts_word b then [(b, v @ trail, k)] else [])"
proof (induction v arbitrary: b)
  case Nil
  show ?case
    by (simp add: ms_star_stop[OF assms(1,2)] at_boundary_def at_wordb_starts ahead_def assms(3))
next
  case (Cons c v)
  from Cons.prems have c: "atom ic A c" "\<not> is_word c" and v: "\<forall>c \<in> set v. atom ic A c \<and> \<not> is_word c"
    by auto
  have "filter at_boundary (ms ic (RStar A) (c # b, v @ trail, k)) = []"
    using Cons.IH[OF v, of "c # b"] c(2) by (simp add: starts_word_def)
  moreover have "at_boundary (b, c # v @ trail, k) = starts_word b"
    by (simp add: at_boundary_def at_wordb_starts ahead_def starts_word_def c(2))
  ultimately show ?case
    by (simp add: ms_star_atom[OF assms(1) c(1)])
qed

lemma star_word_boundary:
  assumes "is_atom A" and "stops ic A trail" and "\<not> starts_word trail"
    and "\<forall>c \<in> set v. atom ic A c \<and> \<not> is_word c"
  shows "\<forall>c \<in> set u. atom ic A c \<Longrightarrow> starts_word (rev u @ b) \<Longrightarrow>
     \<exists>others. filter at_boundary (ms ic (RStar A) (b, u @ v @ trail, k)) = (rev u @ b, v @ trail, k) # others"
proof (induction u arbitrary: b)
  case Nil
  with star_tail_boundary[OF assms, of b k] show ?case by simp
next
  case (Cons c u)
  from Cons.prems have c: "atom ic A c" and u: "\<forall>c \<in> set u. atom ic A c"
    and w: "starts_word (rev u @ c # b)" by auto
  from Cons.IH[OF u w] obtain others where
    "filter at_boundary (ms ic (RStar A) (c # b, u @ v @ trail, k)) = (rev u @ c # b, v @ trail, k) # others"
    by blast
  then show ?case by (simp add: ms_star_atom[OF assms(1) c])
qed

lemma starts_word_rev: "u \<noteq> [] \<Longrightarrow> starts_word (rev u @ b) = is_word (last u)"
  by (cases u rule: rev_cases) (simp_all add: starts_word_def)

lemma plus_word_boundary:
  assumes "is_atom A" and "stops ic A trail" and "\<not> starts_word trail"
    and "\<forall>c \<in> set v. atom ic A c \<and> \<not> is_word c"
    and "\<forall>c \<in> set u. atom ic A c" and "u \<noteq> []" and "is_word (last u)"
  shows "\<exists>others. filter at_boundary (ms ic (RPlus A) (b, u @ v @ trail, k)) = (rev u @ b, v @ trail, k) # others"
proof -
  from assms(6) obtain c u' where u: "u = c # u'" by (cases u) auto
  with assms(5) have c: "atom ic A c" and u': "\<forall>c \<in> set u'. atom ic A c" by auto
  have p: "ms ic (RPlus A) (b, c # u' @ v @ trail, k) = ms ic (RStar A) (c # b, u' @ v @ trail, k)"
    using assms(1) c by (simp add: RPlus_def ms_atom step_atom_def)
  have "starts_word (rev u @ b)" using assms(6,7) starts_word_rev[of u b] by simp
  then have "starts_word (rev u' @ c # b)" by (simp add: u)
  from star_word_boundary[OF assms(1,2,3,4) u' this, of k] p show ?thesis by (simp add: u)
qed

lemma filter_seq_first:
  "mfirst ic r1 st st1 \<Longrightarrow> filter P (ms ic r2 st1) = y # ys \<Longrightarrow> \<exists>zs. filter P (ms ic (RSeq r1 r2) st) = y # zs"
  by (auto simp: mfirst_def)

lemma token_atom: "atom False (RNCls [Ws, Ch DQ, Ch SQ, Ch CHR ''<'', Ch CHR ''>'', Ch CHR ''&'']) c = token_char c"
  by (auto simp: cls_has_def token_char_def)

lemma word_token_char: "is_word c \<Longrightarrow> token_char c"
  using word_is_token[of c] by (simp only: token_atom)

lemma DOI_REGEX_inside:
  assumes l: "4 \<le> length ds" "length ds \<le> 9" and dg: "\<forall>c \<in> set ds. is_digit c"
    and u: "u \<noteq> []" "\<forall>c \<in> set u. token_char c" "is_word (last u)"
    and v: "\<forall>c \<in> set v. token_char c \<and> \<not> is_word c"
    and trail: "trail = [] \<or> \<not> token_char (hd trail)"
    and b: "\<not> starts_word b"
  shows "\<exists>b' s'. mfirst False DOI_REGEX (b, ''10.'' @ ds @ ''/'' @ u @ v @ trail, None)
           (b', s', Some (''10.'' @ ds @ ''/'' @ u))"
proof -
  let ?A = "RNCls [Ws, Ch DQ, Ch SQ, Ch CHR ''<'', Ch CHR ''>'', Ch CHR ''&'']"
  let ?body = "doi_body [Ws, Ch DQ, Ch SQ, Ch CHR ''<'', Ch CHR ''>'', Ch CHR ''&'']"
  let ?r = "v @ trail"
  let ?d = "''10.'' @ ds @ ''/'' @ u"
  let ?st0 = "(b, ?d @ ?r, None)"
  let ?b1 = "[CHR ''.'', CHR ''0'', CHR ''1''] @ b"
  let ?y = "(rev u @ CHR ''/'' # rev ds @ ?b1, ?r, None :: string option)"
  let ?f = "\<lambda>z. (fst z, ahead z, Some (take (length (ahead ?st0) - length (ahead z)) (ahead ?st0)))"
  have st: "stops False ?A trail"
    using trail by (cases trail) (simp_all add: stops_def token_atom del: atom.simps)
  have nw: "\<not> starts_word trail"
    using trail by (cases trail) (auto simp: starts_word_def dest: word_token_char)
  have s1: "mfirst False (str ''10.'') ?st0 (?b1, ds @ CHR ''/'' # u @ ?r, None)"
    using mfirst_str[of "''10.''" b "ds @ CHR ''/'' # u @ ?r" None] by (simp del: str.simps)
  have s2: "mfirst False (rep 4 9 (RCls [Dg])) (?b1, ds @ CHR ''/'' # u @ ?r, None) (rev ds @ ?b1, CHR ''/'' # u @ ?r, None)"
    by (rule mfirst_rep) (use dg l in \<open>auto simp: stops_def cls_has_def is_digit_def code_def\<close>)
  have s3: "mfirst False (RLit CHR ''/'') (rev ds @ ?b1, CHR ''/'' # u @ ?r, None) (CHR ''/'' # rev ds @ ?b1, u @ ?r, None)"
    by (rule mfirst_atom) simp_all
  have "\<exists>others. filter at_boundary (ms False (RPlus ?A) (CHR ''/'' # rev ds @ ?b1, u @ v @ trail, None)) = ?y # others"
    using plus_word_boundary[of ?A False trail v u "CHR ''/'' # rev ds @ ?b1" None] st nw u v
    by (simp add: token_atom del: atom.simps)
  then obtain z4 where "filter at_boundary (ms False (RSeq (RPlus ?A) REps) (CHR ''/'' # rev ds @ ?b1, u @ ?r, None)) = ?y # z4"
    by (auto simp only: ms_seq_eps append_assoc)
  from filter_seq_first[OF s3 this] obtain z3 where
    "filter at_boundary (ms False (RSeq (RLit CHR ''/'') (RSeq (RPlus ?A) REps)) (rev ds @ ?b1, CHR ''/'' # u @ ?r, None)) = ?y # z3"
    by blast
  from filter_seq_first[OF s2 this] obtain z2 where
    "filter at_boundary (ms False (RSeq (rep 4 9 (RCls [Dg])) (RSeq (RLit CHR ''/'') (RSeq (RPlus ?A) REps)))
        (?b1, ds @ CHR ''/'' # u @ ?r, None)) = ?y # z2"
    by blast
  from filter_seq_first[OF s1 this] obtain z1 where y: "filter at_boundary (ms False ?body ?st0) = ?y # z1"
    unfolding doi_body_def seqs.simps by blast
  have g: "ms False (RGroup ?body) ?st0 = map ?f (ms False ?body ?st0)" by simp
  have fb: "at_boundary (?f z) = at_boundary z" for z
    by (simp add: at_boundary_def ahead_def)
  have b0: "at_boundary ?st0"
    using b by (simp add: at_boundary_def at_wordb_starts ahead_def starts_word_def is_word_def is_digit_def code_def)
  have "ms False DOI_REGEX ?st0 = (if at_boundary ?st0 then filter at_boundary (ms False (RGroup ?body) ?st0) else [])"
    unfolding DOI_REGEX_def seqs.simps by (simp only: ms_wordb_seq ms_seq_wordb)
  also have "\<dots> = map ?f (filter at_boundary (ms False ?body ?st0))"
    by (simp only: b0 if_True g filter_map comp_def fb)
  also have "\<dots> = ?f ?y # map ?f z1" by (simp only: y list.map)
  finally have "ms False DOI_REGEX ?st0 = ?f ?y # map ?f z1" .
  moreover have "take (length (d @ r) - length r) (d @ r) = d" for d r :: string by simp
  then have "?f ?y = (rev u @ CHR ''/'' # rev ds @ ?b1, ?r, Some ?d)"
    by (simp only: ahead_def fst_conv snd_conv)
  ultimately show ?thesis by (auto simp: mfirst_def)
qed

lemma ms_str_none: "\<not> prefix w s \<Longrightarrow> ms False (str w) (b, s, k) = []"
proof (induction w arbitrary: b s)
  case Nil
  then show ?case by simp
next
  case (Cons c w)
  show ?case
  proof (cases s)
    case Nil
    then show ?thesis by (simp add: step_atom_def)
  next
    case (Cons x s')
    with Cons.prems Cons.IH[of s' "c # b"] show ?thesis by (auto simp: step_atom_def)
  qed
qed

lemma DOI_REGEX_skip: "\<not> prefix ''10.'' s \<Longrightarrow> ms False DOI_REGEX (b, s, None) = []"
proof -
  assume a: "\<not> prefix ''10.'' s"
  let ?body = "doi_body [Ws, Ch DQ, Ch SQ, Ch CHR ''<'', Ch CHR ''>'', Ch CHR ''&'']"
  have "ms False ?body (b, s, None) = []"
    unfolding doi_body_def seqs.simps using ms_str_none[OF a, of b None] by (simp del: str.simps)
  then have "ms False (RGroup ?body) (b, s, None) = []" by simp
  moreover have "ms False DOI_REGEX (b, s, None) =
      (if at_boundary (b, s, None) then filter at_boundary (ms False (RGroup ?body) (b, s, None)) else [])"
    unfolding DOI_REGEX_def seqs.simps by (simp only: ms_wordb_seq ms_seq_wordb)
  ultimately show ?thesis by simp
qed

lemma search_none: "\<not> str_includes s ''10.'' \<Longrightarrow> search False DOI_REGEX b s = None"
proof (induction s arbitrary: b)
  case Nil
  have "\<not> prefix ''10.'' []" by simp
  from DOI_REGEX_skip[OF this] show ?case by simp
next
  case (Cons c s)
  from Cons.prems have p: "\<not> prefix ''10.'' (c # s)" and n: "\<not> str_includes s ''10.''" by simp_all
  from DOI_REGEX_skip[OF p, of b] Cons.IH[OF n, of "c # b"] show ?case by simp
qed

lemma search_lead:
  "\<not> str_includes lead ''10.'' \<Longrightarrow>
     search False DOI_REGEX b (lead @ ''10.'' @ r) = search False DOI_REGEX (rev lead @ b) (''10.'' @ r)"
proof (induction lead arbitrary: b)
  case Nil
  show ?case by simp
next
  case (Cons c lead)
  from Cons.prems have p: "\<not> prefix ''10.'' (c # lead)" and n: "\<not> str_includes lead ''10.''" by simp_all
  have "\<not> prefix ''10.'' (c # lead @ ''10.'' @ r)"
  proof (cases lead)
    case Nil
    then show ?thesis by simp
  next
    case (Cons x xs)
    with p show ?thesis by (cases xs) auto
  qed
  then have "ms False DOI_REGEX (b, c # lead @ ''10.'' @ r, None) = []" by (rule DOI_REGEX_skip)
  with Cons.IH[OF n, of "c # b"] show ?case by simp
qed

lemma lang_str: "lang False (str w) = {w}"
  by (induction w) auto

lemma lang_doi_prefix:
  "w \<in> lang False doi_prefix_re \<Longrightarrow> w \<in> {''doi:'', ''http://doi.org/'', ''https://doi.org/''}"
  unfolding doi_prefix_re_def seqs.simps alts.simps ROpt_def
  by (auto simp: lang_str simp del: str.simps)

lemma strip_cases:
  "replace_first False doi_prefix_re [] s = s
   \<or> (\<exists>m \<in> {''doi:'', ''http://doi.org/'', ''https://doi.org/''}. s = m @ replace_first False doi_prefix_re [] s)"
proof (cases "search False doi_prefix_re [] s")
  case None
  then show ?thesis by (simp add: replace_first_def)
next
  case (Some res)
  obtain b0 st' where res: "res = (b0, st')" by (cases res)
  from search_result[of False doi_prefix_re "[]" s b0 st'] Some res
  obtain s1 where m: "st' \<in> set (ms False doi_prefix_re (b0, s1, None))" and d: "rev b0 @ s1 = s"
    by auto
  from m have b0: "b0 = []" by (auto simp: doi_prefix_re_def split: if_splits)
  from ms_sound[OF m] obtain w where w: "w \<in> lang False doi_prefix_re" "moved (b0, s1, None) w st'" by blast
  from w(2) have "s1 = w @ ahead st'" by (simp add: moved_def ahead_def)
  moreover from Some res b0 have "replace_first False doi_prefix_re [] s = ahead st'"
    by (simp add: replace_first_def)
  ultimately have "s = w @ replace_first False doi_prefix_re [] s" using d b0 by simp
  with lang_doi_prefix[OF w(1)] show ?thesis by blast
qed

lemma str_includes_append: "str_includes s pat \<Longrightarrow> str_includes (m @ s) pat"
proof (induction m)
  case Nil
  then show ?case by simp
next
  case (Cons c m)
  then show ?case by simp
qed

lemma no_doi_text: "\<not> str_includes c ''10.'' \<Longrightarrow> doi_of_text c = None"
proof -
  assume a: "\<not> str_includes c ''10.''"
  let ?R = "replace_first False doi_prefix_re [] c"
  from strip_cases[of c] have "?R = c \<or> (\<exists>m. c = m @ ?R)" by blast
  with a have "\<not> str_includes ?R ''10.''" using str_includes_append[of ?R "''10.''"] by metis
  from search_none[OF this] show ?thesis by (simp add: doi_of_text_def match1_def)
qed

lemma strip_lead:
  assumes "\<not> str_includes lead ''10.''" and "lead = [] \<or> \<not> is_word (last lead)"
  shows "\<exists>lead'. replace_first False doi_prefix_re [] (lead @ ''10.'' @ r) = lead' @ ''10.'' @ r
           \<and> \<not> str_includes lead' ''10.'' \<and> (lead' = [] \<or> \<not> is_word (last lead'))"
proof -
  let ?X = "''10.'' @ r"
  let ?R = "replace_first False doi_prefix_re [] (lead @ ?X)"
  from strip_cases[of "lead @ ?X"] consider "?R = lead @ ?X"
    | m where "m \<in> {''doi:'', ''http://doi.org/'', ''https://doi.org/''}" "lead @ ?X = m @ ?R" by blast
  then show ?thesis
  proof cases
    case 1
    with assms show ?thesis by blast
  next
    case 2
    from 2(2) obtain t where t: "(lead = m @ t \<and> t @ ?X = ?R) \<or> (lead @ t = m \<and> ?X = t @ ?R)"
      by (auto simp only: append_eq_append_conv2)
    then show ?thesis
    proof
      assume a: "lead = m @ t \<and> t @ ?X = ?R"
      with assms(1) have n: "\<not> str_includes t ''10.''" using str_includes_append[of t "''10.''" m] by blast
      have "t = [] \<or> \<not> is_word (last t)"
      proof (cases "t = []")
        case True
        then show ?thesis by simp
      next
        case False
        with a have "last lead = last t" by simp
        with a False assms(2) show ?thesis by auto
      qed
      with a n show ?thesis by metis
    next
      assume a: "lead @ t = m \<and> ?X = t @ ?R"
      have "t = []"
      proof (rule ccontr)
        assume "t \<noteq> []"
        with a have "hd t = CHR ''1''" by (cases t) auto
        with \<open>t \<noteq> []\<close> have "CHR ''1'' \<in> set t" by (metis hd_in_set)
        with a have "CHR ''1'' \<in> set m" by auto
        with 2(1) show False by auto
      qed
      have "?X = t @ ?R" using a by (rule conjunct2)
      then have "?X = ?R" unfolding \<open>t = []\<close> append_Nil .
      then have e: "?R = [] @ ?X" unfolding append_Nil by (rule sym)
      have "\<not> str_includes [] ''10.''" by simp
      with e show ?thesis by blast
    qed
  qed
qed

lemma doi_of_text_inside:
  assumes l: "4 \<le> length ds" "length ds \<le> 9" and dg: "\<forall>c \<in> set ds. is_digit c"
    and u: "u \<noteq> []" "\<forall>c \<in> set u. token_char c" "is_word (last u)"
    and v: "\<forall>c \<in> set v. token_char c \<and> \<not> is_word c"
    and trail: "trail = [] \<or> \<not> token_char (hd trail)"
    and lead: "\<not> str_includes lead ''10.''" "lead = [] \<or> \<not> is_word (last lead)"
  shows "doi_of_text (lead @ ''10.'' @ ds @ ''/'' @ u @ v @ trail) = Some (''10.'' @ ds @ ''/'' @ u)"
proof -
  let ?r = "ds @ ''/'' @ u @ v @ trail"
  from strip_lead[OF lead, of ?r] obtain lead' where
    R: "replace_first False doi_prefix_re [] (lead @ ''10.'' @ ?r) = lead' @ ''10.'' @ ?r"
    and n: "\<not> str_includes lead' ''10.''" and w: "lead' = [] \<or> \<not> is_word (last lead')" by blast
  have b: "\<not> starts_word (rev lead')"
  proof (cases "lead' = []")
    case True
    then show ?thesis by (simp add: starts_word_def)
  next
    case False
    with w starts_word_rev[OF False, of "[]"] show ?thesis by simp
  qed
  from DOI_REGEX_inside[OF l dg u v trail b] obtain b' s' where
    "mfirst False DOI_REGEX (rev lead', ''10.'' @ ?r, None) (b', s', Some (''10.'' @ ds @ ''/'' @ u))"
    by blast
  from search_first[OF this] search_lead[OF n, of "[]" ?r]
  have "search False DOI_REGEX [] (lead' @ ''10.'' @ ?r) = Some (rev lead', b', s', Some (''10.'' @ ds @ ''/'' @ u))"
    by simp
  with R show ?thesis by (simp add: doi_of_text_def match1_def)
qed

lemma meta_tier_first:
  assumes "\<forall>s \<in> set before. \<forall>e. querySelector s els = Some e \<longrightarrow>
             doi_of_text (case getAttribute e ''content'' of None \<Rightarrow> [] | Some c \<Rightarrow> c) = None"
    and "querySelector sel els = Some el"
    and "doi_of_text (case getAttribute el ''content'' of None \<Rightarrow> [] | Some c \<Rightarrow> c) = Some d"
  shows "meta_tier (before @ sel # after) els = Some d"
  using assms by (induction before) (auto split: option.splits)

subsection \<open>The meta tag tier\<close>

text \<open>
  Claim C7, as amended. Take the first selector of tier 1 whose element holds the text
  \<^verbatim>\<open>10.\<close> in its \<^verbatim>\<open>content\<close>, and let that content hold an identifier of the DOI syntax,
  \<^verbatim>\<open>10.\<close>, four to nine digits, a slash and a token \<open>u @ v\<close> with a word character in it:
  \<open>u\<close> ends in the last word character of the token, and \<open>v\<close> is the run of non-word
  characters after it (empty when the identifier ends in a word character). Before the
  identifier stands a text without \<^verbatim>\<open>10.\<close> that does not end in a word character (nothing,
  \<^verbatim>\<open>doi:\<close>, a resolver address, or another label); after it the content ends, or a
  character follows that a token cannot hold. Then tier 1 returns the
  identifier without what stands before it and without the run \<open>v\<close>: the DOI pattern ends
  at a word boundary, so that a closing bracket or a full stop at the end of the
  identifier is left off. \<open>detectDOI\<close> returns the same, whatever the address, structured
  data, links, scripts and text of the page are.
\<close>

theorem meta_tier_returns_identifier:
  assumes "metaSelectors = before @ sel # after"
    and "querySelector sel (metas p) = Some el"
    and "getAttribute el ''content'' = Some (lead @ ''10.'' @ ds @ ''/'' @ u @ v @ trail)"
    and "\<not> str_includes lead ''10.''" and "lead = [] \<or> \<not> is_word (last lead)"
    and "4 \<le> length ds" and "length ds \<le> 9" and "\<forall>c \<in> set ds. is_digit c"
    and "u \<noteq> []" and "\<forall>c \<in> set u. token_char c" and "is_word (last u)"
    and "\<forall>c \<in> set v. token_char c \<and> \<not> is_word c"
    and "trail = [] \<or> \<not> token_char (hd trail)"
    and "\<forall>s \<in> set before.
           \<not> str_includes (case querySelector s (metas p) of None \<Rightarrow> []
                             | Some e \<Rightarrow> (case getAttribute e ''content'' of None \<Rightarrow> [] | Some c \<Rightarrow> c)) ''10.''"
  shows "is_doi_syntax (''10.'' @ ds @ ''/'' @ u @ v)
       \<and> meta_tier metaSelectors (metas p) = Some (''10.'' @ ds @ ''/'' @ u)
       \<and> detectDOI p = Some (''10.'' @ ds @ ''/'' @ u)"
proof -
  have "doi_shape False [Ws, Ch DQ, Ch SQ, Ch CHR ''<'', Ch CHR ''>'', Ch CHR ''&''] (''10.'' @ ds @ ''/'' @ (u @ v))"
    unfolding doi_shape_def using assms(6-10,12) token_atom by (intro exI[of _ ds] exI[of _ "u @ v"]) auto
  then have syn: "is_doi_syntax (''10.'' @ ds @ ''/'' @ u @ v)" by (rule doi_shape_syntax)
  have hit: "doi_of_text (case getAttribute el ''content'' of None \<Rightarrow> [] | Some c \<Rightarrow> c) = Some (''10.'' @ ds @ ''/'' @ u)"
    using doi_of_text_inside[OF assms(6-13) assms(4,5)] by (simp add: assms(3))
  have miss: "\<forall>s \<in> set before. \<forall>e. querySelector s (metas p) = Some e \<longrightarrow>
             doi_of_text (case getAttribute e ''content'' of None \<Rightarrow> [] | Some c \<Rightarrow> c) = None"
  proof (intro ballI allI impI)
    fix s e
    assume s: "s \<in> set before" and q: "querySelector s (metas p) = Some e"
    with assms(14) have "\<not> str_includes (case getAttribute e ''content'' of None \<Rightarrow> [] | Some c \<Rightarrow> c) ''10.''"
      by force
    then show "doi_of_text (case getAttribute e ''content'' of None \<Rightarrow> [] | Some c \<Rightarrow> c) = None"
      by (rule no_doi_text)
  qed
  from meta_tier_first[OF miss assms(2) hit, of after]
  have "meta_tier metaSelectors (metas p) = Some (''10.'' @ ds @ ''/'' @ u)" by (simp only: assms(1))
  with syn show ?thesis by (simp add: detectDOI_meta)
qed

lemma page_tags_facts:
  "querySelector [(''name'', ''prism.doi'')] (metas page_tags)
     = Some [(''name'', ''prism.doi''), (''content'', ''DOI: https://doi.org/10.1038/nature12373.'')]
   \<and> \<not> str_includes ''DOI: https://doi.org/'' ''10.''
   \<and> (\<forall>c \<in> set ''1038''. is_digit c)
   \<and> (\<forall>c \<in> set ''nature12373''. token_char c) \<and> is_word (last ''nature12373'')
   \<and> (\<forall>c \<in> set ''.''. token_char c \<and> \<not> is_word c)
   \<and> \<not> is_word (last ''DOI: https://doi.org/'')
   \<and> (\<forall>s \<in> set [[(''name'', ''citation_doi'')], [(''name'', ''dc.identifier''), (''scheme'', ''doi'')],
          [(''name'', ''dc.identifier'')], [(''name'', ''DC.identifier'')], [(''name'', ''DC.Identifier'')],
          [(''name'', ''doi'')], [(''name'', ''DOI'')], [(''property'', ''citation_doi'')]].
        \<not> str_includes (case querySelector s (metas page_tags) of None \<Rightarrow> []
                          | Some e \<Rightarrow> (case getAttribute e ''content'' of None \<Rightarrow> [] | Some c \<Rightarrow> c)) ''10.'')"
  by code_simp

lemma page_tags_lower_tiers:
  "querySelector [(''name'', ''dc.identifier'')] (metas page_tags)
     = Some [(''name'', ''dc.identifier''), (''content'', ''issn:1476-4687'')]
   \<and> querySelector [(''name'', ''bepress_citation_doi'')] (metas page_tags)
     = Some [(''name'', ''bepress_citation_doi''), (''content'', ''10.5555/later'')]
   \<and> match1 False url_path_re (href page_tags) = Some ''10.9999/other''"
  by code_simp

text \<open>
  The theorem on a page with four meta tags: the tag of the third selector holds no
  identifier, the tag of the ninth holds one behind a label and a resolver address and
  before a full stop, the tag of the tenth and the address hold other identifiers.
\<close>

theorem meta_tier_returns_identifier_witness:
  "querySelector [(''name'', ''dc.identifier'')] (metas page_tags)
     = Some [(''name'', ''dc.identifier''), (''content'', ''issn:1476-4687'')]
   \<and> querySelector [(''name'', ''prism.doi'')] (metas page_tags)
     = Some [(''name'', ''prism.doi''), (''content'', ''DOI: https://doi.org/10.1038/nature12373.'')]
   \<and> querySelector [(''name'', ''bepress_citation_doi'')] (metas page_tags)
     = Some [(''name'', ''bepress_citation_doi''), (''content'', ''10.5555/later'')]
   \<and> match1 False url_path_re (href page_tags) = Some ''10.9999/other''
   \<and> is_doi_syntax ''10.1038/nature12373.''
   \<and> meta_tier metaSelectors (metas page_tags) = Some ''10.1038/nature12373''
   \<and> detectDOI page_tags = Some ''10.1038/nature12373''"
  using meta_tier_returns_identifier[of
      "[[(''name'', ''citation_doi'')], [(''name'', ''dc.identifier''), (''scheme'', ''doi'')],
        [(''name'', ''dc.identifier'')], [(''name'', ''DC.identifier'')], [(''name'', ''DC.Identifier'')],
        [(''name'', ''doi'')], [(''name'', ''DOI'')], [(''property'', ''citation_doi'')]]"
      "[(''name'', ''prism.doi'')]"
      "[[(''name'', ''bepress_citation_doi'')], [(''name'', ''eprints.id_number'')]]"
      page_tags
      "[(''name'', ''prism.doi''), (''content'', ''DOI: https://doi.org/10.1038/nature12373.'')]"
      "''DOI: https://doi.org/''" "''1038''" "''nature12373''" "''.''" "[]"]
    page_tags_facts page_tags_lower_tiers
  by (simp add: metaSelectors_def getAttribute_def)

text \<open>
  Claim C7 as stated fails on an identifier that ends in a closing bracket: the content
  of the tag has the DOI syntax, and tier 1 returns it without the bracket.
\<close>

theorem meta_tier_drops_closing_bracket:
  "querySelector [(''name'', ''citation_doi'')] (metas page_sici)
     = Some [(''name'', ''citation_doi''), (''content'', ''10.1002/(SICI)1097-4571(1997)'')]
   \<and> is_doi_syntax ''10.1002/(SICI)1097-4571(1997)''
   \<and> meta_tier metaSelectors (metas page_sici) = Some ''10.1002/(SICI)1097-4571(1997''
   \<and> detectDOI page_sici = Some ''10.1002/(SICI)1097-4571(1997''"
  by code_simp

end
